theory Spec2Isabelle
  imports Complex_Main "HOL-Library.Multiset" "HOL-Library.AList"
    "HOL-Library.Char_ord" "HOL-Library.List_Lexorder"
begin

section \<open>The aliquot sequence store of mfaliquot/application/__init__.py\<close>

text \<open>
  The development embeds the classes \<^verbatim>\<open>AliquotSequence\<close>, \<^verbatim>\<open>_Heap\<close>,
  \<^verbatim>\<open>_SequencesData\<close> and \<^verbatim>\<open>SequencesManager\<close>. Python exceptions are values of
  the type \<open>error\<close>; a method that mutates its object returns the object after the
  call, also when it raises, because a Python exception leaves the mutations made so
  far in place.
\<close>

datatype error =
  LockError | KeyError | IndexError | TypeError | ValueError | AttributeError
  | UnboundLocalError | FileNotFoundError | JSONDecodeError

subsection \<open>AliquotSequence\<close>

text \<open>
  \<^verbatim>\<open>progress\<close> is an integer or a date string (\<^verbatim>\<open>isinstance(self.progress, str)\<close>).
\<close>

datatype progress = ProgInt int | ProgStr string

text \<open>
  The fourteen slots of \<^verbatim>\<open>AliquotSequence._map\<close>, in the order of their list index,
  with \<open>None\<close> where the default is \<^verbatim>\<open>None\<close>. \<open>seq\<close> is the dictionary key of the
  store and is an integer here. Numbers that may be floats (\<open>priority\<close>) are rationals.
  The attributes \<^verbatim>\<open>size\<close> and \<^verbatim>\<open>id\<close> are the fields \<open>size_f\<close> and \<open>id_f\<close>.
  \<open>heap_entry\<close> is the instance attribute \<^verbatim>\<open>_heap_entry\<close>, a reference to a
  heap entry object (its address), absent until \<^verbatim>\<open>_make_heap_entry\<close> sets it; it
  is not a slot of the list and is not serialised.
\<close>

record ali =
  seq :: int
  size_f :: "int option"
  index :: "int option"
  guide :: string
  factors :: string
  cofactor :: string
  klass :: "int option"
  res :: string
  progress :: "progress option"
  time :: string
  nzilch :: int
  priority :: rat
  id_f :: "int option"
  driver :: "string option"
  heap_entry :: "nat option"

definition is_valid :: "ali \<Rightarrow> bool" where
  "is_valid a \<longleftrightarrow>
     seq a \<noteq> 0
     \<and> (case size_f a of None \<Rightarrow> False | Some n \<Rightarrow> n \<noteq> 0 \<and> n > 0)
     \<and> (case index a of None \<Rightarrow> False | Some n \<Rightarrow> n \<noteq> 0 \<and> n > 0)
     \<and> factors a \<noteq> []"

subsection \<open>heapq\<close>

text \<open>
  \<^verbatim>\<open>_Heap\<close> is a list driven by the functions of the standard module \<^verbatim>\<open>heapq\<close>:
  \<^verbatim>\<open>_siftdown\<close>, \<^verbatim>\<open>_siftup\<close>, \<^verbatim>\<open>heappush\<close>, \<^verbatim>\<open>heappop\<close>, \<^verbatim>\<open>heapify\<close>. They
  compare items with \<^verbatim>\<open><\<close> only; the comparison \<open>lt\<close> is a parameter and may raise.
  Each function returns the list as it is when the function returns or raises.
\<close>

function siftdown_loop ::
  "('a \<Rightarrow> 'a \<Rightarrow> error + bool) \<Rightarrow> 'a list \<Rightarrow> nat \<Rightarrow> nat \<Rightarrow> 'a \<Rightarrow> error option \<times> 'a list" where
  "siftdown_loop lt heap startpos pos newitem =
     (if pos > startpos then
        (let parentpos = (pos - 1) div 2; parent = heap ! parentpos in
         case lt newitem parent of
           Inl e \<Rightarrow> (Some e, heap)
         | Inr True \<Rightarrow> siftdown_loop lt (heap[pos := parent]) startpos parentpos newitem
         | Inr False \<Rightarrow> (None, heap[pos := newitem]))
      else (None, heap[pos := newitem]))"
  by pat_completeness auto
termination
  by (relation "measure (\<lambda>(lt, heap, startpos, pos, newitem). pos)") auto

declare siftdown_loop.simps [simp del]

definition siftdown ::
  "('a \<Rightarrow> 'a \<Rightarrow> error + bool) \<Rightarrow> 'a list \<Rightarrow> nat \<Rightarrow> nat \<Rightarrow> error option \<times> 'a list" where
  "siftdown lt heap startpos pos =
     (if pos < length heap then siftdown_loop lt heap startpos pos (heap ! pos)
      else (Some IndexError, heap))"

text \<open>
  The loop of \<^verbatim>\<open>_siftup\<close>: the smaller child moves up until \<open>pos\<close> is a leaf. It
  returns the list and the position of the hole.
\<close>

function siftup_loop ::
  "('a \<Rightarrow> 'a \<Rightarrow> error + bool) \<Rightarrow> 'a list \<Rightarrow> nat \<Rightarrow> nat \<Rightarrow> error option \<times> 'a list \<times> nat" where
  "siftup_loop lt heap endpos pos =
     (let childpos = 2 * pos + 1 in
      if childpos < endpos then
        (let rightpos = childpos + 1 in
         if rightpos < endpos then
           (case lt (heap ! childpos) (heap ! rightpos) of
              Inl e \<Rightarrow> (Some e, heap, pos)
            | Inr b \<Rightarrow>
                (let childpos' = (if \<not> b then rightpos else childpos) in
                 siftup_loop lt (heap[pos := heap ! childpos']) endpos childpos'))
         else siftup_loop lt (heap[pos := heap ! childpos]) endpos childpos)
      else (None, heap, pos))"
  by pat_completeness auto
termination
  by (relation "measure (\<lambda>(lt, heap, endpos, pos). endpos - pos)") auto

declare siftup_loop.simps [simp del]

definition siftup ::
  "('a \<Rightarrow> 'a \<Rightarrow> error + bool) \<Rightarrow> 'a list \<Rightarrow> nat \<Rightarrow> error option \<times> 'a list" where
  "siftup lt heap pos =
     (if pos < length heap then
        (let newitem = heap ! pos in
         case siftup_loop lt heap (length heap) pos of
           (Some e, heap', pos') \<Rightarrow> (Some e, heap')
         | (None, heap', pos') \<Rightarrow> siftdown lt (heap'[pos' := newitem]) pos pos')
      else (Some IndexError, heap))"

definition heappush ::
  "('a \<Rightarrow> 'a \<Rightarrow> error + bool) \<Rightarrow> 'a list \<Rightarrow> 'a \<Rightarrow> error option \<times> 'a list" where
  "heappush lt heap item = siftdown lt (heap @ [item]) 0 (length heap)"

text \<open>\<^verbatim>\<open>heappop\<close> returns the popped item, or the exception, and the list.\<close>

definition heappop ::
  "('a \<Rightarrow> 'a \<Rightarrow> error + bool) \<Rightarrow> 'a list \<Rightarrow> (error + 'a) \<times> 'a list" where
  "heappop lt heap =
     (if heap = [] then (Inl IndexError, heap)
      else
        (let lastelt = last heap; heap1 = butlast heap in
         if heap1 \<noteq> [] then
           (let returnitem = heap1 ! 0 in
            case siftup lt (heap1[0 := lastelt]) 0 of
              (Some e, heap2) \<Rightarrow> (Inl e, heap2)
            | (None, heap2) \<Rightarrow> (Inr returnitem, heap2))
         else (Inr lastelt, heap1)))"

text \<open>\<^verbatim>\<open>for i in reversed(range(n//2)): _siftup(x, i)\<close>\<close>

fun heapify_loop ::
  "('a \<Rightarrow> 'a \<Rightarrow> error + bool) \<Rightarrow> nat list \<Rightarrow> 'a list \<Rightarrow> error option \<times> 'a list" where
  "heapify_loop lt [] x = (None, x)"
| "heapify_loop lt (i # is) x =
     (case siftup lt x i of
        (Some e, x') \<Rightarrow> (Some e, x')
      | (None, x') \<Rightarrow> heapify_loop lt is x')"

definition heapify ::
  "('a \<Rightarrow> 'a \<Rightarrow> error + bool) \<Rightarrow> 'a list \<Rightarrow> error option \<times> 'a list" where
  "heapify lt x = heapify_loop lt (rev [0 ..< length x div 2]) x"

subsection \<open>Strings\<close>

text \<open>
  \<^verbatim>\<open>str.replace(old, new)\<close>: the occurrences of \<open>old\<close> are replaced from the left
  and do not overlap; an empty \<open>old\<close> matches before every character and at the end.
\<close>

function py_replace :: "string \<Rightarrow> string \<Rightarrow> string \<Rightarrow> string" where
  "py_replace old new s =
     (if old = [] then new @ concat (map (\<lambda>c. c # new) s)
      else if s = [] then []
      else if take (length old) s = old then new @ py_replace old new (drop (length old) s)
      else hd s # py_replace old new (tl s))"
  by pat_completeness auto
termination
  by (relation "measure (\<lambda>(old, new, s). length s)") auto

declare py_replace.simps [simp del]

text \<open>The decimal digits of a natural number, and \<^verbatim>\<open>"{:d}".format(i)\<close>.\<close>

function digits :: "nat \<Rightarrow> string" where
  "digits n =
     (if n < 10 then [char_of (48 + n)]
      else digits (n div 10) @ [char_of (48 + n mod 10)])"
  by pat_completeness auto
termination
  by (relation "measure (\<lambda>n. n)") auto

declare digits.simps [simp del]

definition str_int :: "int \<Rightarrow> string" where
  "str_int i = (if i < 0 then CHR ''-'' # digits (nat (- i)) else digits (nat i))"

text \<open>\<^verbatim>\<open>"{:>wd}".format(i)\<close>: right-aligned in a field of width \<open>w\<close>.\<close>

definition rjust :: "nat \<Rightarrow> string \<Rightarrow> string" where
  "rjust w s = replicate (w - length s) CHR '' '' @ s"

text \<open>
  \<^verbatim>\<open>AliquotSequence.__str__\<close>: the line of the text file, or \<^verbatim>\<open>ValueError\<close> when the
  record is not fully described.
\<close>

definition str :: "ali \<Rightarrow> error + string" where
  "str a =
     (if is_valid a then
        Inr (rjust 7 (str_int (seq a)) @ '' '' @ rjust 5 (str_int (the (index a))) @ ''. sz ''
             @ rjust 3 (str_int (the (size_f a))) @ '' '' @ factors a)
      else Inl ValueError)"

subsection \<open>calculate_priority\<close>

text \<open>
  \<^verbatim>\<open>round(prio, 3)\<close> on a rational: to the nearest multiple of 1/1000, ties to the even
  one.
\<close>

definition round3 :: "rat \<Rightarrow> rat" where
  "round3 q =
     (let x = q * 1000; f = \<lfloor>x\<rfloor>; d = x - of_int f in
      of_int (if d < 1 / 2 then f else if d > 1 / 2 then f + 1
              else if even f then f else f + 1) / 1000)"

text \<open>
  \<^verbatim>\<open>calculate_priority(self, max_update_period, begin_time_penalty, res_factor)\<close>.
  The parameter \<open>days_since\<close> stands for lines 154 to 156: it parses the date string
  and gives the number of days from it to today's date (UTC), or the exception that
  \<^verbatim>\<open>int\<close> or \<^verbatim>\<open>datetime.date\<close> raises on it. In the branch
  \<^verbatim>\<open>deltadays > begin_time_penalty\<close> the first statement, line 164, is
  \<^verbatim>\<open>days -= begin_time_penalty\<close>; \<^verbatim>\<open>days\<close> is a local variable that has no
  value, so the statement raises \<^verbatim>\<open>UnboundLocalError\<close> and lines 165 to 168 never
  run.
\<close>

definition calculate_priority ::
  "(string \<Rightarrow> error + int) \<Rightarrow> ali \<Rightarrow> int \<Rightarrow> int \<Rightarrow> rat \<Rightarrow> error + ali" where
  "calculate_priority days_since self max_update_period begin_time_penalty res_factor =
     (let prio = of_int (nzilch self);
          after_date =
            (case progress self of
               Some (ProgStr p) \<Rightarrow>
                 (case days_since p of
                    Inl e \<Rightarrow> Inl e
                  | Inr deltadays \<Rightarrow>
                      if deltadays > begin_time_penalty then Inl UnboundLocalError
                      else Inr prio)
             | _ \<Rightarrow> Inr prio)
      in case after_date of
           Inl e \<Rightarrow> Inl e
         | Inr prio1 \<Rightarrow>
             (let prio2 = (if res self \<noteq> [] then prio1 * res_factor else prio1)
              in Inr (self\<lparr>priority := round3 prio2\<rparr>)))"

text \<open>
  What line 166 to 168 would compute if line 164 were not there, after line 165 has
  already subtracted \<open>begin_time_penalty\<close> from \<open>max_update_period\<close>.
\<close>

definition penalised ::
  "rat \<Rightarrow> int \<Rightarrow> int \<Rightarrow> int \<Rightarrow> rat" where
  "penalised prio deltadays max_update_period begin_time_penalty =
     (let mup = max_update_period - begin_time_penalty;
          ratio = of_int (deltadays - begin_time_penalty) / of_int (mup - begin_time_penalty)
      in prio * (1 - ratio))"

subsection \<open>Heap entries\<close>

text \<open>
  A heap entry is the mutable list \<^verbatim>\<open>[ali.priority, ali.time, ali.seq]\<close>; sabotage
  sets its third item to \<^verbatim>\<open>None\<close>. Entries are objects shared between the heap and
  the records (\<^verbatim>\<open>ali._heap_entry\<close>), so they live in a store, the list \<open>entries\<close>
  of the state, and are referred to by their address, the index in that list.
\<close>

record entry =
  e_priority :: rat
  e_time :: string
  e_seq :: "int option"

text \<open>
  \<^verbatim>\<open><\<close> on two such lists: the first items that differ decide; an integer compared
  with \<^verbatim>\<open>None\<close> raises \<^verbatim>\<open>TypeError\<close>.
\<close>

definition entry_lt :: "entry \<Rightarrow> entry \<Rightarrow> error + bool" where
  "entry_lt a b =
     (if e_priority a \<noteq> e_priority b then Inr (e_priority a < e_priority b)
      else if e_time a \<noteq> e_time b then Inr (e_time a < e_time b)
      else if e_seq a = e_seq b then Inr False
      else (case (e_seq a, e_seq b) of
              (Some x, Some y) \<Rightarrow> Inr (x < y)
            | _ \<Rightarrow> Inl TypeError))"

definition heap_lt :: "entry list \<Rightarrow> nat \<Rightarrow> nat \<Rightarrow> error + bool" where
  "heap_lt es a b = entry_lt (es ! a) (es ! b)"

text \<open>\<^verbatim>\<open>_make_heap_entry\<close>: the new entry's address, the record, the store.\<close>

definition make_heap_entry :: "ali \<Rightarrow> entry list \<Rightarrow> nat \<times> ali \<times> entry list" where
  "make_heap_entry a es =
     (length es, a\<lparr>heap_entry := Some (length es)\<rparr>,
      es @ [\<lparr>e_priority = priority a, e_time = time a, e_seq = Some (seq a)\<rparr>])"

definition sabotage_heap_entry :: "ali \<Rightarrow> entry list \<Rightarrow> error + entry list" where
  "sabotage_heap_entry a es =
     (case heap_entry a of
        None \<Rightarrow> Inl AttributeError
      | Some p \<Rightarrow> Inr (es[p := (es ! p)\<lparr>e_seq := None\<rparr>]))"

subsection \<open>Files\<close>

text \<open>
  What a file holds: nothing (the lock file), the JSON document
  \<^verbatim>\<open>{"aaData": rows, "resdatetime": ...}\<close> with the key \<^verbatim>\<open>resdatetime\<close> optional,
  text that is not a JSON document, or the lines of the text table. The rows of a
  document are records without the attribute \<^verbatim>\<open>_heap_entry\<close>.
\<close>

datatype file_content = Empty | Json "ali list" "string option" | Malformed | Text string

definition row_of :: "ali \<Rightarrow> ali" where
  "row_of a = a\<lparr>heap_entry := None\<rparr>"

text \<open>
  Line 405 writes \<^verbatim>\<open>json.dumps(outdict).replace('],', '],\n') + '\n'\<close>. The
  replacement works on the text of the document: after a \<^verbatim>\<open>]\<close> that closes a row
  it adds white space, which JSON ignores; inside a string value that contains
  \<^verbatim>\<open>],\<close> it adds a raw line feed, which \<^verbatim>\<open>json.dumps\<close> never writes (it escapes
  control characters and leaves \<^verbatim>\<open>]\<close> and \<^verbatim>\<open>,\<close> as they are) and which
  \<^verbatim>\<open>json.load\<close> refuses in a string. So the text is the document when the
  replacement leaves every string value as it is, and not a JSON document otherwise.
\<close>

definition replace_keeps :: "string \<Rightarrow> bool" where
  "replace_keeps v \<longleftrightarrow> py_replace ''],'' (''],'' @ [CHR 0x0A]) v = v"

definition row_strings :: "ali \<Rightarrow> string list" where
  "row_strings a =
     [guide a, factors a, cofactor a, res a]
     @ (case progress a of Some (ProgStr p) \<Rightarrow> [p] | _ \<Rightarrow> [])
     @ [time a]
     @ (case driver a of Some d \<Rightarrow> [d] | None \<Rightarrow> [])"

definition json_text :: "ali list \<Rightarrow> string option \<Rightarrow> file_content" where
  "json_text rows rdt =
     (if list_all replace_keeps
           (concat (map row_strings rows) @ (case rdt of Some t \<Rightarrow> [t] | None \<Rightarrow> []))
      then Json (map row_of rows) rdt else Malformed)"

subsection \<open>_SequencesData\<close>

text \<open>
  The attributes of the object (\<open>data\<close> and \<open>heap\<close> are \<^verbatim>\<open>_data\<close> and
  \<^verbatim>\<open>_heap\<close>, \<open>None\<close> until the file is read; \<open>resdatetime\<close> and
  \<open>block_minutes\<close> are absent until assigned), and what the methods reach outside
  the object: the heap entry objects by address, the file system, and the seconds
  spent in \<^verbatim>\<open>sleep\<close>. The dictionary is the list of its items in insertion order;
  the heap is the list of the addresses of its entries.
\<close>

record sequences_data =
  jsonfile :: string
  lockfile :: string
  txtfile :: string
  data :: "(int \<times> ali) list option"
  heap :: "nat list option"
  resdatetime :: "string option"
  block_minutes :: "int option"
  entries :: "entry list"
  files :: "string \<Rightarrow> file_content option"
  slept :: int

text \<open>
  \<^verbatim>\<open>__init__(self, jsonfile, txtfile='')\<close>, on the file system \<open>fs\<close> and with the
  entry objects \<open>es\<close> allocated so far.
\<close>

definition init ::
  "string \<Rightarrow> string \<Rightarrow> entry list \<Rightarrow> (string \<Rightarrow> file_content option) \<Rightarrow> error + sequences_data" where
  "init jsonfile' txtfile' es fs =
     (if jsonfile' = txtfile' then Inl ValueError
      else Inr \<lparr>jsonfile = jsonfile',
                lockfile = jsonfile' @ ''.lock'',
                txtfile = (if txtfile' = [] then py_replace ''.json'' ''.txt'' jsonfile'
                           else txtfile'),
                data = None, heap = None, resdatetime = None, block_minutes = None,
                entries = es, files = fs, slept = 0\<rparr>)"

text \<open>\<^verbatim>\<open>_lock\<close>: \<^verbatim>\<open>open(self._lockfile, 'x')\<close> creates the file or fails if it exists.\<close>

definition lock :: "sequences_data \<Rightarrow> error option \<times> sequences_data" where
  "lock s =
     (case files s (lockfile s) of
        Some f \<Rightarrow> (Some LockError, s)
      | None \<Rightarrow> (None, s\<lparr>files := (files s)(lockfile s \<mapsto> Empty)\<rparr>))"

definition unlock :: "sequences_data \<Rightarrow> error option \<times> sequences_data" where
  "unlock s =
     (case files s (lockfile s) of
        None \<Rightarrow> (Some FileNotFoundError, s)
      | Some f \<Rightarrow> (None, s\<lparr>files := (files s)(lockfile s := None)\<rparr>))"

text \<open>
  The loop of \<^verbatim>\<open>lock_read_init\<close>: each row becomes a record with a new heap entry,
  stored at the row's position of the heap list and under its \<open>seq\<close> in the
  dictionary.
\<close>

fun read_loop ::
  "ali list \<Rightarrow> (int \<times> ali) list \<Rightarrow> nat list \<Rightarrow> entry list
     \<Rightarrow> (int \<times> ali) list \<times> nat list \<times> entry list" where
  "read_loop [] d h es = (d, h, es)"
| "read_loop (dat # rest) d h es =
     (case make_heap_entry (row_of dat) es of
        (p, a, es') \<Rightarrow> read_loop rest (AList.update (seq a) a d) (h @ [p]) es')"

definition lock_read_init :: "sequences_data \<Rightarrow> error option \<times> sequences_data" where
  "lock_read_init s =
     (case lock s of
        (Some e, s1) \<Rightarrow> (Some e, s1)
      | (None, s1) \<Rightarrow>
          (case files s1 (jsonfile s1) of
             None \<Rightarrow> (Some FileNotFoundError, s1)
           | Some (Json rows rdt) \<Rightarrow>
               (let s2 = (case rdt of None \<Rightarrow> s1 | Some t \<Rightarrow> s1\<lparr>resdatetime := Some t\<rparr>) in
                case read_loop rows [] [] (entries s2) of
                  (d, h, es) \<Rightarrow>
                    (case heapify (heap_lt es) h of
                       (r, h') \<Rightarrow> (r, s2\<lparr>data := Some d, heap := Some h', entries := es\<rparr>)))
           | Some other \<Rightarrow> (Some JSONDecodeError, s1)))"

text \<open>\<^verbatim>\<open>acquire_lock\<close> stores its argument for \<^verbatim>\<open>__enter__\<close>.\<close>

definition acquire_lock :: "int \<Rightarrow> sequences_data \<Rightarrow> sequences_data" where
  "acquire_lock block_minutes' s = s\<lparr>block_minutes := Some block_minutes'\<rparr>"

text \<open>
  \<^verbatim>\<open>sleep(period)\<close>: the seconds are counted, and in the meantime the other processes
  act on the file system; \<open>env i\<close> is what they do during the sleep of iteration
  \<open>i\<close>.
\<close>

definition sleep ::
  "((string \<Rightarrow> file_content option) \<Rightarrow> (string \<Rightarrow> file_content option)) \<Rightarrow> int \<Rightarrow> sequences_data
     \<Rightarrow> sequences_data" where
  "sleep others period s = s\<lparr>slept := slept s + period, files := others (files s)\<rparr>"

text \<open>
  The loop of \<^verbatim>\<open>__enter__\<close> over the iterations \<open>is\<close> that are left; \<open>f\<close> is the
  local variable that holds the last \<^verbatim>\<open>LockError\<close>, unbound before the first one.
  Another exception of \<^verbatim>\<open>lock_read_init\<close> is not caught.
\<close>

fun enter_loop ::
  "int \<Rightarrow> (nat \<Rightarrow> (string \<Rightarrow> file_content option) \<Rightarrow> (string \<Rightarrow> file_content option)) \<Rightarrow> nat list \<Rightarrow> error option
     \<Rightarrow> sequences_data \<Rightarrow> error option \<times> sequences_data" where
  "enter_loop period env [] f s =
     (case f of None \<Rightarrow> (Some UnboundLocalError, s) | Some e \<Rightarrow> (Some e, s))"
| "enter_loop period env (i # is) f s =
     (case lock_read_init s of
        (None, s1) \<Rightarrow> (None, s1)
      | (Some LockError, s1) \<Rightarrow> enter_loop period env is (Some LockError) (sleep (env i) period s1)
      | (Some e, s1) \<Rightarrow> (Some e, s1))"

definition enter ::
  "(nat \<Rightarrow> (string \<Rightarrow> file_content option) \<Rightarrow> (string \<Rightarrow> file_content option)) \<Rightarrow> sequences_data
     \<Rightarrow> error option \<times> sequences_data" where
  "enter env s =
     (case block_minutes s of
        None \<Rightarrow> (Some AttributeError, s)
      | Some m \<Rightarrow>
          (let seconds = m * 60; period = 1; count = seconds div period
           in enter_loop period env [0 ..< nat (count + 1)] None s))"

text \<open>
  \<^verbatim>\<open>unlock_write\<close>. \<open>kept\<close> is line 393, the \<open>seq\<close> of the items of the heap
  list, in the order of the list, that are keys of the dictionary; \<open>missing\<close> is line
  396, the keys that are not among them. Python iterates over that set in an order
  it does not specify: the model takes the order of the dictionary.
\<close>

definition kept :: "entry list \<Rightarrow> nat list \<Rightarrow> (int \<times> ali) list \<Rightarrow> int list" where
  "kept es h d =
     map (\<lambda>p. the (e_seq (es ! p)))
       (filter (\<lambda>p. case e_seq (es ! p) of None \<Rightarrow> False | Some k \<Rightarrow> k \<in> set (map fst d)) h)"

definition missing :: "entry list \<Rightarrow> nat list \<Rightarrow> (int \<times> ali) list \<Rightarrow> int list" where
  "missing es h d = filter (\<lambda>k. k \<notin> set (kept es h d)) (map fst d)"

text \<open>Lines 397 and 398: the records of both, in that order.\<close>

definition out_list :: "entry list \<Rightarrow> nat list \<Rightarrow> (int \<times> ali) list \<Rightarrow> ali list" where
  "out_list es h d = map (\<lambda>k. the (map_of d k)) (kept es h d @ missing es h d)"

text \<open>\<^verbatim>\<open>'\n'.join(lines)\<close>\<close>

fun join_lines :: "string list \<Rightarrow> string" where
  "join_lines [] = []"
| "join_lines [l] = l"
| "join_lines (l # ls) = l @ [CHR 0x0A] @ join_lines ls"

definition unlock_write :: "sequences_data \<Rightarrow> error option \<times> sequences_data" where
  "unlock_write s =
     (case heap s of
        None \<Rightarrow> (Some TypeError, s)
      | Some h \<Rightarrow>
          (case data s of
             None \<Rightarrow> (Some (if h = [] then AttributeError else TypeError), s)
           | Some d \<Rightarrow>
               (let out = out_list (entries s) h d;
                    s1 = s\<lparr>files := (files s)(jsonfile s \<mapsto> json_text out (resdatetime s))\<rparr>
                in if txtfile s \<noteq> [] then
                     (let sorted_out = sort_key seq out in
                      if list_all is_valid sorted_out then
                        unlock (s1\<lparr>files := (files s1)(txtfile s \<mapsto>
                          Text (join_lines (map (\<lambda>a. projr (str a)) sorted_out) @ [CHR 0x0A]))\<rparr>)
                      else (Some ValueError, s1))
                   else unlock s1)))"

text \<open>
  \<^verbatim>\<open>pop_n_todo\<close> is a generator. \<open>pop_loop\<close> runs it to its end: it gives the ids
  it yields, the exception that ends it if one does, and the heap list. A consumer
  that stops after the \<open>j\<close>-th id of \<^verbatim>\<open>pop_n_todo(n)\<close> leaves the heap as the full
  run of \<^verbatim>\<open>pop_n_todo(j)\<close> does.
\<close>

function pop_loop :: "int \<Rightarrow> entry list \<Rightarrow> nat list \<Rightarrow> int list \<times> error option \<times> nat list" where
  "pop_loop n es h =
     (if n > 0 then
        (case heappop (heap_lt es) h of
           (Inl e, h') \<Rightarrow> ([], Some e, h')
         | (Inr p, h') \<Rightarrow>
             (case e_seq (es ! p) of
                None \<Rightarrow> pop_loop n es h'
              | Some k \<Rightarrow>
                  if k \<noteq> 0 then
                    (case pop_loop (n - 1) es h' of (ys, r, h'') \<Rightarrow> (k # ys, r, h''))
                  else pop_loop n es h'))
      else ([], None, h))"
  by pat_completeness auto
termination
proof -
  have sd: "length (snd (siftdown_loop lt h sp p x)) = length h"
    for lt :: "nat \<Rightarrow> nat \<Rightarrow> error + bool" and h sp p x
  proof (induction lt h sp p x rule: siftdown_loop.induct)
    case (1 lt heap startpos pos newitem)
    show ?case
      by (subst siftdown_loop.simps)
         (auto simp: Let_def 1 split: sum.splits bool.splits)
  qed
  have su: "length (fst (snd (siftup_loop lt h e p))) = length h"
    for lt :: "nat \<Rightarrow> nat \<Rightarrow> error + bool" and h e p
  proof (induction lt h e p rule: siftup_loop.induct)
    case (1 lt heap endpos pos)
    show ?case
      by (subst siftup_loop.simps)
         (auto simp: Let_def 1 split: sum.splits bool.splits)
  qed
  have sf: "length (snd (siftup lt h p)) = length h"
    for lt :: "nat \<Rightarrow> nat \<Rightarrow> error + bool" and h p
    using su [of lt h "length h" p]
    by (auto simp: siftup_def siftdown_def sd Let_def split: prod.splits option.splits)
  have hp: "heappop lt h = (Inr p, h') \<Longrightarrow> length h' < length h"
    for lt :: "nat \<Rightarrow> nat \<Rightarrow> error + bool" and h p h'
    using sf [of lt "(butlast h)[0 := last h]" 0]
    by (cases "h = []")
       (auto simp: heappop_def Let_def split: if_splits prod.splits option.splits)
  show ?thesis
    by (relation "measure (\<lambda>(n, es, h). length h)") (auto dest: hp [OF sym])
qed

declare pop_loop.simps [simp del]

definition pop_n_todo :: "int \<Rightarrow> sequences_data \<Rightarrow> int list \<times> error option \<times> sequences_data" where
  "pop_n_todo n s =
     (if n > 0 then
        (case heap s of
           None \<Rightarrow> ([], Some AttributeError, s)
         | Some h \<Rightarrow>
             (case pop_loop n (entries s) h of (ys, r, h') \<Rightarrow> (ys, r, s\<lparr>heap := Some h'\<rparr>)))
      else ([], None, s))"

text \<open>\<^verbatim>\<open>drop\<close>; the name \<open>drop\<close> is a function on lists in HOL.\<close>

fun drop_seqs :: "int list \<Rightarrow> sequences_data \<Rightarrow> error option \<times> sequences_data" where
  "drop_seqs [] s = (None, s)"
| "drop_seqs (k # ks) s =
     (case data s of
        None \<Rightarrow> (Some AttributeError, s)
      | Some d \<Rightarrow>
          (case map_of d k of
             None \<Rightarrow> (Some KeyError, s)
           | Some a \<Rightarrow>
               (case sabotage_heap_entry a (entries s) of
                  Inl e \<Rightarrow> (Some e, s)
                | Inr es \<Rightarrow> drop_seqs ks (s\<lparr>entries := es, data := Some (AList.delete k d)\<rparr>))))"

definition push_new_info :: "ali \<Rightarrow> sequences_data \<Rightarrow> error option \<times> sequences_data" where
  "push_new_info a s =
     (case data s of
        None \<Rightarrow> (Some TypeError, s)
      | Some d \<Rightarrow>
          (case heap s of
             None \<Rightarrow> (Some AttributeError, s\<lparr>data := Some (AList.update (seq a) a d)\<rparr>)
           | Some h \<Rightarrow>
               (case make_heap_entry a (entries s) of
                  (p, a', es) \<Rightarrow>
                    (case heappush (heap_lt es) h p of
                       (r, h') \<Rightarrow>
                         (r, s\<lparr>data := Some (AList.update (seq a) a' d), heap := Some h',
                                entries := es\<rparr>)))))"

subsection \<open>SequencesManager\<close>

text \<open>
  The loops of \<^verbatim>\<open>reserve_seqs\<close> and \<^verbatim>\<open>unreserve_seqs\<close> on the dictionary, with the
  three result lists so far.
\<close>

fun reserve_loop ::
  "string \<Rightarrow> int list \<Rightarrow> int list \<times> int list \<times> (int \<times> string) list \<Rightarrow> (int \<times> ali) list
     \<Rightarrow> (int list \<times> int list \<times> (int \<times> string) list) \<times> (int \<times> ali) list" where
  "reserve_loop name [] acc d = (acc, d)"
| "reserve_loop name (k # ks) (DNEs, already_owns, other_owns) d =
     (case map_of d k of
        None \<Rightarrow> reserve_loop name ks (DNEs @ [k], already_owns, other_owns) d
      | Some a \<Rightarrow>
          (let other = res a in
           if other = [] then
             reserve_loop name ks (DNEs, already_owns, other_owns)
               (AList.update k (a\<lparr>res := name\<rparr>) d)
           else if name = other then
             reserve_loop name ks (DNEs, already_owns @ [k], other_owns) d
           else reserve_loop name ks (DNEs, already_owns, other_owns @ [(k, other)]) d))"

fun unreserve_loop ::
  "string \<Rightarrow> int list \<Rightarrow> int list \<times> int list \<times> (int \<times> string) list \<Rightarrow> (int \<times> ali) list
     \<Rightarrow> (int list \<times> int list \<times> (int \<times> string) list) \<times> (int \<times> ali) list" where
  "unreserve_loop name [] acc d = (acc, d)"
| "unreserve_loop name (k # ks) (DNEs, not_reserveds, wrong_reserveds) d =
     (case map_of d k of
        None \<Rightarrow> unreserve_loop name ks (DNEs @ [k], not_reserveds, wrong_reserveds) d
      | Some a \<Rightarrow>
          (let current = res a in
           if current = [] then
             unreserve_loop name ks (DNEs, not_reserveds @ [k], wrong_reserveds) d
           else if name = current then
             unreserve_loop name ks (DNEs, not_reserveds, wrong_reserveds)
               (AList.update k (a\<lparr>res := []\<rparr>) d)
           else unreserve_loop name ks (DNEs, not_reserveds, wrong_reserveds @ [(k, current)]) d))"

text \<open>
  The methods: on an object whose \<^verbatim>\<open>_data\<close> is still \<^verbatim>\<open>None\<close> the test
  \<^verbatim>\<open>seq not in self\<close> of the first iteration raises \<^verbatim>\<open>AttributeError\<close>.
\<close>

definition reserve_seqs ::
  "string \<Rightarrow> int list \<Rightarrow> sequences_data
     \<Rightarrow> (error + int list \<times> int list \<times> (int \<times> string) list) \<times> sequences_data" where
  "reserve_seqs name seqs s =
     (case data s of
        None \<Rightarrow> (if seqs = [] then (Inr ([], [], []), s) else (Inl AttributeError, s))
      | Some d \<Rightarrow>
          (case reserve_loop name seqs ([], [], []) d of
             (r, d') \<Rightarrow> (Inr r, s\<lparr>data := Some d'\<rparr>)))"

definition unreserve_seqs ::
  "string \<Rightarrow> int list \<Rightarrow> sequences_data
     \<Rightarrow> (error + int list \<times> int list \<times> (int \<times> string) list) \<times> sequences_data" where
  "unreserve_seqs name seqs s =
     (case data s of
        None \<Rightarrow> (if seqs = [] then (Inr ([], [], []), s) else (Inl AttributeError, s))
      | Some d \<Rightarrow>
          (case unreserve_loop name seqs ([], [], []) d of
             (r, d') \<Rightarrow> (Inr r, s\<lparr>data := Some d'\<rparr>)))"

subsection \<open>Example data\<close>

text \<open>A fully described record with the given \<open>seq\<close>, priority and reservation.\<close>

definition record_of :: "int \<Rightarrow> rat \<Rightarrow> string \<Rightarrow> ali" where
  "record_of k p r =
     \<lparr>seq = k, size_f = Some 100, index = Some 5, guide = [], factors = ''2^2 * 3'',
      cofactor = [], klass = None, res = r, progress = None, time = [], nzilch = 0,
      priority = p, id_f = None, driver = None, heap_entry = None\<rparr>"

subsection \<open>Reservation results\<close>

text \<open>
  The requested ids that are not keys of the dictionary \<open>d\<close>, and those whose record
  in \<open>d\<close> is reserved by somebody other than \<open>name\<close>, with that owner; both in
  the order of the request.
\<close>

definition absent :: "(int \<times> ali) list \<Rightarrow> int list \<Rightarrow> int list" where
  "absent d seqs = filter (\<lambda>k. map_of d k = None) seqs"

definition owned_by_other :: "string \<Rightarrow> (int \<times> ali) list \<Rightarrow> int list \<Rightarrow> (int \<times> string) list" where
  "owned_by_other name d seqs =
     map (\<lambda>k. (k, res (the (map_of d k))))
       (filter (\<lambda>k. case map_of d k of None \<Rightarrow> False | Some a \<Rightarrow> res a \<noteq> [] \<and> res a \<noteq> name) seqs)"

text \<open>
  \<open>res_only d d'\<close>: the dictionaries have the same keys in the same order, and each
  record of \<open>d'\<close> is the record of \<open>d\<close> under the same key except, at most, for
  its slot \<open>res\<close>.
\<close>

definition res_only :: "(int \<times> ali) list \<Rightarrow> (int \<times> ali) list \<Rightarrow> bool" where
  "res_only d d' \<longleftrightarrow>
     map fst d' = map fst d
     \<and> (\<forall>k. rel_option (\<lambda>a a'. a' = a\<lparr>res := res a'\<rparr>) (map_of d k) (map_of d' k))"

text \<open>
  A store read from a file of three records: 10 reserved by alice, 20 by bob, 30 not
  reserved. \<open>reservations_data\<close> is its dictionary. \<open>unread_store\<close> is an object
  that has not read its file.
\<close>

definition reservations_store :: sequences_data where
  "reservations_store =
     snd (lock_read_init (projr (init ''AllSeq.json'' [] []
       [''AllSeq.json'' \<mapsto>
          Json [record_of 10 1 ''alice'', record_of 20 2 ''bob'', record_of 30 3 []] None])))"

definition reservations_data :: "(int \<times> ali) list" where
  "reservations_data =
     [(10, (record_of 10 1 ''alice'')\<lparr>heap_entry := Some 0\<rparr>),
      (20, (record_of 20 2 ''bob'')\<lparr>heap_entry := Some 1\<rparr>),
      (30, (record_of 30 3 [])\<lparr>heap_entry := Some 2\<rparr>)]"

definition unread_store :: sequences_data where
  "unread_store = projr (init ''AllSeq.json'' [] [] Map.empty)"

text \<open>
  An object for a file of one record, before it reads the file; the same object after
  another process has taken the lock.
\<close>

definition fresh_store :: sequences_data where
  "fresh_store =
     projr (init ''AllSeq.json'' [] [] [''AllSeq.json'' \<mapsto> Json [record_of 276 1 []] None])"

definition locked_out_store :: sequences_data where
  "locked_out_store = fresh_store\<lparr>files := files (snd (lock fresh_store))\<rparr>"

subsection \<open>Dropped records\<close>

text \<open>
  What sabotage does to the entry at address \<open>p\<close>; the address of the entry of the
  record under \<open>k\<close>; the dictionary without the keys \<open>ks\<close>.
\<close>

definition tombstone :: "nat \<Rightarrow> entry list \<Rightarrow> entry list" where
  "tombstone p es = es[p := (es ! p)\<lparr>e_seq := None\<rparr>]"

definition entry_of :: "(int \<times> ali) list \<Rightarrow> int \<Rightarrow> nat" where
  "entry_of d k = the (heap_entry (the (map_of d k)))"

definition without :: "int list \<Rightarrow> (int \<times> ali) list \<Rightarrow> (int \<times> ali) list" where
  "without ks d = filter (\<lambda>(k, a). k \<notin> set ks) d"

text \<open>
  \<open>dropped s d ks s'\<close>: \<open>s'\<close> is \<open>s\<close>, whose dictionary is \<open>d\<close>, after the ids
  \<open>ks\<close> have been dropped: they are no longer keys, the other keys keep their
  records, the entry of each of them is tombstoned, the other entries and the rest
  of the state (the heap list among it) are as before.
\<close>

definition dropped ::
  "sequences_data \<Rightarrow> (int \<times> ali) list \<Rightarrow> int list \<Rightarrow> sequences_data \<Rightarrow> bool" where
  "dropped s d ks s' \<longleftrightarrow>
     s' = s\<lparr>entries := entries s', data := data s'\<rparr>
     \<and> (\<exists>d'. data s' = Some d'
            \<and> (\<forall>k. map_of d' k = (if k \<in> set ks then None else map_of d k)))
     \<and> length (entries s') = length (entries s)
     \<and> (\<forall>k\<in>set ks. e_seq (entries s' ! entry_of d k) = None)
     \<and> (\<forall>p. p \<notin> entry_of d ` set ks \<longrightarrow> entries s' ! p = entries s ! p)"

text \<open>
  The store of the three records after \<^verbatim>\<open>unlock_write\<close>: it no longer holds the lock.
\<close>

definition released_store :: sequences_data where
  "released_store = snd (unlock_write reservations_store)"

text \<open>
  The store of the three records after \<^verbatim>\<open>push_new_info\<close> of a new record for the id
  10, which is already in the store, and after \<^verbatim>\<open>drop([10])\<close> then.
\<close>

definition overwritten_store :: sequences_data where
  "overwritten_store = snd (push_new_info (record_of 10 0 ''alice'') reservations_store)"

definition overwritten_dropped_store :: sequences_data where
  "overwritten_dropped_store = snd (drop_seqs [10] overwritten_store)"

text \<open>
  The store of the three records after 30 has been reserved by an owner whose name
  contains \<^verbatim>\<open>],\<close>; the store after \<^verbatim>\<open>unlock_write\<close> then; a new object for the
  file that was written.
\<close>

definition bracket_store :: sequences_data where
  "bracket_store = snd (reserve_seqs ''x],y'' [30] reservations_store)"

definition bracket_written :: sequences_data where
  "bracket_written = snd (unlock_write bracket_store)"

definition bracket_reader :: sequences_data where
  "bracket_reader = (projr (init ''AllSeq.json'' [] [] (files bracket_written)))"

(*DEFS-END*)

section \<open>Properties\<close>

subsection \<open>Priority\<close>

lemma calculate_priority_penalty_raises:
  assumes "progress a = Some (ProgStr p)" and "days_since p = Inr d" and "d > btp"
  shows "calculate_priority days_since a mup btp rf = Inl UnboundLocalError"
  using assms by (simp add: calculate_priority_def)

lemma calculate_priority_no_penalty:
  assumes "progress a = Some (ProgStr p)" and "days_since p = Inr d" and "d \<le> btp"
  shows "calculate_priority days_since a mup btp rf =
           Inr (a\<lparr>priority :=
                  round3 (if res a \<noteq> [] then of_int (nzilch a) * rf else of_int (nzilch a))\<rparr>)"
  using assms by (simp add: calculate_priority_def)

lemma penalised_example: "penalised 10 60 90 30 = 0"
  by (simp add: penalised_def)

text \<open>
  C3: with \<^verbatim>\<open>max_update_period=90\<close>, \<^verbatim>\<open>begin_time_penalty=30\<close>, a record with
  \<^verbatim>\<open>nzilch\<close> (the stationary count) 10, no reservation and a progress date 60 days
  before today, the claim expects the stored priority 5.0. The call stores nothing: it
  raises \<^verbatim>\<open>UnboundLocalError\<close> at line 164, as it does for every date older than
  \<^verbatim>\<open>begin_time_penalty\<close> days (\<open>calculate_priority_penalty_raises\<close>).
\<close>

theorem priority_decay_example_raises:
  "calculate_priority (\<lambda>p. Inr 60)
     ((record_of 276 0 [])\<lparr>nzilch := 10, progress := Some (ProgStr ''2026-09-05'')\<rparr>)
     90 30 (1 / 2) = Inl UnboundLocalError"
  by (simp add: calculate_priority_def record_of_def)

subsection \<open>reserve_seqs and unreserve_seqs\<close>

lemma res_only_refl: "res_only d d"
  by (simp add: res_only_def option.rel_refl)

lemma res_only_trans: "res_only d d' \<Longrightarrow> res_only d' d'' \<Longrightarrow> res_only d d''"
  unfolding res_only_def
proof (intro conjI allI)
  fix k
  assume a: "map fst d' = map fst d \<and> (\<forall>k. rel_option (\<lambda>a a'. a' = a\<lparr>res := res a'\<rparr>) (map_of d k) (map_of d' k))"
    and b: "map fst d'' = map fst d' \<and> (\<forall>k. rel_option (\<lambda>a a'. a' = a\<lparr>res := res a'\<rparr>) (map_of d' k) (map_of d'' k))"
  from a have 1: "rel_option (\<lambda>a a'. a' = a\<lparr>res := res a'\<rparr>) (map_of d k) (map_of d' k)" by blast
  from b have 2: "rel_option (\<lambda>a a'. a' = a\<lparr>res := res a'\<rparr>) (map_of d' k) (map_of d'' k)" by blast
  show "rel_option (\<lambda>a a'. a' = a\<lparr>res := res a'\<rparr>) (map_of d k) (map_of d'' k)"
  proof (cases "map_of d k")
    case None
    with 1 2 show ?thesis by (cases "map_of d' k"; cases "map_of d'' k") auto
  next
    case (Some a)
    with 1 obtain a' where a': "map_of d' k = Some a'" "a' = a\<lparr>res := res a'\<rparr>"
      by (cases "map_of d' k") auto
    with 2 obtain a'' where a'': "map_of d'' k = Some a''" "a'' = a'\<lparr>res := res a''\<rparr>"
      by (cases "map_of d'' k") auto
    have "a'' = a\<lparr>res := res a''\<rparr>"
      by (subst a''(2), subst a'(2)) simp
    with Some a''(1) show ?thesis by simp
  qed
qed auto

lemma res_only_update:
  assumes "map_of d k = Some a"
  shows "res_only d (AList.update k (a\<lparr>res := r\<rparr>) d)"
proof -
  from assms have "k \<in> set (map fst d)"
    by (metis domI dom_map_of_conv_image_fst set_map)
  then have "map fst (AList.update k (a\<lparr>res := r\<rparr>) d) = map fst d"
    by (simp add: update_keys)
  moreover have "rel_option (\<lambda>a a'. a' = a\<lparr>res := res a'\<rparr>) (map_of d k') (map_of (AList.update k (a\<lparr>res := r\<rparr>) d) k')" for k'
    using assms by (cases "k' = k") (auto simp: update_conv' option.rel_refl)
  ultimately show ?thesis by (simp add: res_only_def)
qed

lemma reserve_loop_res_only: "res_only d (snd (reserve_loop name ks acc d))"
proof (induction ks arbitrary: acc d)
  case Nil
  show ?case by (simp add: res_only_refl)
next
  case (Cons k ks)
  obtain D A W where acc: "acc = (D, A, W)" by (cases acc) auto
  show ?case
  proof (cases "map_of d k")
    case None
    then show ?thesis using Cons.IH by (simp add: acc)
  next
    case (Some a)
    show ?thesis
      using Some Cons.IH res_only_trans [OF res_only_update [OF Some] Cons.IH]
      by (auto simp: acc Let_def)
  qed
qed

lemma reserve_loop_frame:
  "k \<notin> set ks \<Longrightarrow> map_of (snd (reserve_loop name ks acc d)) k = map_of d k"
proof (induction ks arbitrary: acc d)
  case Nil
  show ?case by simp
next
  case (Cons k' ks)
  obtain D A W where acc: "acc = (D, A, W)" by (cases acc) auto
  from Cons.prems have ne: "k \<noteq> k'" and nin: "k \<notin> set ks" by auto
  show ?case
    using Cons.IH [OF nin] ne
    by (auto simp: acc Let_def update_conv' split: option.splits)
qed

lemma unreserve_loop_res_only: "res_only d (snd (unreserve_loop name ks acc d))"
proof (induction ks arbitrary: acc d)
  case Nil
  show ?case by (simp add: res_only_refl)
next
  case (Cons k ks)
  obtain D A W where acc: "acc = (D, A, W)" by (cases acc) auto
  show ?case
  proof (cases "map_of d k")
    case None
    then show ?thesis using Cons.IH by (simp add: acc)
  next
    case (Some a)
    show ?thesis
      using Some Cons.IH res_only_trans [OF res_only_update [OF Some] Cons.IH]
      by (auto simp: acc Let_def)
  qed
qed

lemma unreserve_loop_frame:
  "k \<notin> set ks \<Longrightarrow> map_of (snd (unreserve_loop name ks acc d)) k = map_of d k"
proof (induction ks arbitrary: acc d)
  case Nil
  show ?case by simp
next
  case (Cons k' ks)
  obtain D A W where acc: "acc = (D, A, W)" by (cases acc) auto
  from Cons.prems have ne: "k \<noteq> k'" and nin: "k \<notin> set ks" by auto
  show ?case
    using Cons.IH [OF nin] ne
    by (auto simp: acc Let_def update_conv' split: option.splits)
qed

text \<open>Classification.\<close>

lemma absent_update:
  "map_of d k = Some a \<Longrightarrow> absent (AList.update k a' d) ks = absent d ks"
  unfolding absent_def by (rule filter_cong) (auto simp: update_conv')

lemma owned_by_other_update:
  assumes "map_of d k = Some a" and "res a = [] \<or> res a = name" and "r = [] \<or> r = name"
  shows "owned_by_other name (AList.update k (a\<lparr>res := r\<rparr>) d) ks = owned_by_other name d ks"
proof -
  have "(case map_of (AList.update k (a\<lparr>res := r\<rparr>) d) k' of None \<Rightarrow> False
          | Some a \<Rightarrow> res a \<noteq> [] \<and> res a \<noteq> name)
        = (case map_of d k' of None \<Rightarrow> False | Some a \<Rightarrow> res a \<noteq> [] \<and> res a \<noteq> name)" for k'
    using assms by (cases "k' = k") (auto simp: update_conv')
  then have f: "filter (\<lambda>k'. case map_of (AList.update k (a\<lparr>res := r\<rparr>) d) k' of None \<Rightarrow> False
          | Some a \<Rightarrow> res a \<noteq> [] \<and> res a \<noteq> name) ks
      = filter (\<lambda>k'. case map_of d k' of None \<Rightarrow> False | Some a \<Rightarrow> res a \<noteq> [] \<and> res a \<noteq> name) ks"
    by simp
  show ?thesis
    unfolding owned_by_other_def f
    using assms by (intro map_cong refl) (auto simp: update_conv')
qed

lemma reserve_loop_classes:
  "fst (fst (reserve_loop name ks (D, A, W) d)) = D @ absent d ks
   \<and> snd (snd (fst (reserve_loop name ks (D, A, W) d))) = W @ owned_by_other name d ks"
proof (induction ks arbitrary: D A W d)
  case Nil
  show ?case by (simp add: absent_def owned_by_other_def)
next
  case (Cons k ks)
  show ?case
  proof (cases "map_of d k")
    case None
    then show ?thesis
      by (simp add: Cons.IH [of "D @ [k]" A W d]) (simp add: absent_def owned_by_other_def)
  next
    case (Some a)
    consider "res a = []" | "res a \<noteq> []" "res a = name" | "res a \<noteq> []" "res a \<noteq> name" by blast
    then show ?thesis
    proof cases
      case 1
      have h1: "absent d (k # ks) = absent d ks" using Some by (simp add: absent_def)
      have h2: "owned_by_other name d (k # ks) = owned_by_other name d ks"
        using Some 1 by (simp add: owned_by_other_def)
      show ?thesis
        using Some 1
        by (simp add: Let_def h1 h2 Cons.IH [of D A W "AList.update k (a\<lparr>res := name\<rparr>) d"]
              absent_update [OF Some] owned_by_other_update [OF Some])
    next
      case 2
      have h1: "absent d (k # ks) = absent d ks" using Some by (simp add: absent_def)
      have h2: "owned_by_other name d (k # ks) = owned_by_other name d ks"
        using Some 2 by (simp add: owned_by_other_def)
      show ?thesis
        using Some 2 by (simp add: Let_def h1 h2 Cons.IH [of D "A @ [k]" W d])
    next
      case 3
      have h1: "absent d (k # ks) = absent d ks" using Some by (simp add: absent_def)
      have h2: "owned_by_other name d (k # ks) = (k, res a) # owned_by_other name d ks"
        using Some 3 by (simp add: owned_by_other_def)
      show ?thesis
        using Some 3 by (simp add: Let_def h1 h2 Cons.IH [of D A "W @ [(k, res a)]" d])
    qed
  qed
qed

lemma unreserve_loop_classes:
  "fst (fst (unreserve_loop name ks (D, A, W) d)) = D @ absent d ks
   \<and> snd (snd (fst (unreserve_loop name ks (D, A, W) d))) = W @ owned_by_other name d ks"
proof (induction ks arbitrary: D A W d)
  case Nil
  show ?case by (simp add: absent_def owned_by_other_def)
next
  case (Cons k ks)
  show ?case
  proof (cases "map_of d k")
    case None
    then show ?thesis
      by (simp add: Cons.IH [of "D @ [k]" A W d]) (simp add: absent_def owned_by_other_def)
  next
    case (Some a)
    consider "res a = []" | "res a \<noteq> []" "res a = name" | "res a \<noteq> []" "res a \<noteq> name" by blast
    then show ?thesis
    proof cases
      case 1
      have h1: "absent d (k # ks) = absent d ks" using Some by (simp add: absent_def)
      have h2: "owned_by_other name d (k # ks) = owned_by_other name d ks"
        using Some 1 by (simp add: owned_by_other_def)
      show ?thesis
        using Some 1 by (simp add: Let_def h1 h2 Cons.IH [of D "A @ [k]" W d])
    next
      case 2
      have h1: "absent d (k # ks) = absent d ks" using Some by (simp add: absent_def)
      have h2: "owned_by_other name d (k # ks) = owned_by_other name d ks"
        using Some 2 by (simp add: owned_by_other_def)
      show ?thesis
        using Some 2
        by (simp add: Let_def h1 h2 Cons.IH [of D A W "AList.update k (a\<lparr>res := []\<rparr>) d"]
              absent_update [OF Some] owned_by_other_update [OF Some])
    next
      case 3
      have h1: "absent d (k # ks) = absent d ks" using Some by (simp add: absent_def)
      have h2: "owned_by_other name d (k # ks) = (k, res a) # owned_by_other name d ks"
        using Some 3 by (simp add: owned_by_other_def)
      show ?thesis
        using Some 3 by (simp add: Let_def h1 h2 Cons.IH [of D A "W @ [(k, res a)]" d])
    qed
  qed
qed

text \<open>
  C8: on a store that has read its file, in which 10 is reserved by alice, 20 by bob
  and 30 by nobody, \<^verbatim>\<open>reserve_seqs("alice", [10, 20, 30])\<close> returns no missing id,
  already-owned \<open>[10]\<close> and other-owns \<open>[(20, "bob")]\<close> and sets the reservation of
  30 to alice; then \<^verbatim>\<open>unreserve_seqs("alice", [30])\<close> clears it and reports nothing,
  and \<^verbatim>\<open>unreserve_seqs("bob", [30])\<close> after that reports 30 as not reserved. For
  every owner and every list of ids both methods return normally: the first list of
  the result is the requested ids that are missing from the store and the third the
  requested ids reserved by another owner, with that owner.
\<close>

theorem reservation_reconciliation:
  assumes "data s = Some d"
    and "map_of d 10 = Some a10" and "res a10 = ''alice''"
    and "map_of d 20 = Some a20" and "res a20 = ''bob''"
    and "map_of d 30 = Some a30" and "res a30 = []"
  shows "(\<exists>d1 d2.
            reserve_seqs ''alice'' [10, 20, 30] s
              = (Inr ([], [10], [(20, ''bob'')]), s\<lparr>data := Some d1\<rparr>)
          \<and> map_option res (map_of d1 30) = Some ''alice''
          \<and> unreserve_seqs ''alice'' [30] (s\<lparr>data := Some d1\<rparr>)
              = (Inr ([], [], []), s\<lparr>data := Some d2\<rparr>)
          \<and> map_option res (map_of d2 30) = Some []
          \<and> unreserve_seqs ''bob'' [30] (s\<lparr>data := Some d2\<rparr>)
              = (Inr ([], [30], []), s\<lparr>data := Some d2\<rparr>))
       \<and> (\<forall>name seqs. \<exists>already_owns s'.
             reserve_seqs name seqs s
               = (Inr (absent d seqs, already_owns, owned_by_other name d seqs), s'))
       \<and> (\<forall>name seqs. \<exists>not_reserveds s'.
             unreserve_seqs name seqs s
               = (Inr (absent d seqs, not_reserveds, owned_by_other name d seqs), s'))"
proof (intro conjI allI)
  show "\<exists>d1 d2.
            reserve_seqs ''alice'' [10, 20, 30] s
              = (Inr ([], [10], [(20, ''bob'')]), s\<lparr>data := Some d1\<rparr>)
          \<and> map_option res (map_of d1 30) = Some ''alice''
          \<and> unreserve_seqs ''alice'' [30] (s\<lparr>data := Some d1\<rparr>)
              = (Inr ([], [], []), s\<lparr>data := Some d2\<rparr>)
          \<and> map_option res (map_of d2 30) = Some []
          \<and> unreserve_seqs ''bob'' [30] (s\<lparr>data := Some d2\<rparr>)
              = (Inr ([], [30], []), s\<lparr>data := Some d2\<rparr>)"
  proof -
    define d1 where "d1 = AList.update 30 (a30\<lparr>res := ''alice''\<rparr>) d"
    define d2 where "d2 = AList.update 30 (a30\<lparr>res := []\<rparr>) d1"
    have l1: "map_of d1 30 = Some (a30\<lparr>res := ''alice''\<rparr>)"
      by (simp add: d1_def update_conv')
    have l2: "map_of d2 30 = Some (a30\<lparr>res := []\<rparr>)"
      by (simp add: d2_def update_conv')
    have r1: "reserve_seqs ''alice'' [10, 20, 30] s
                = (Inr ([], [10], [(20, ''bob'')]), s\<lparr>data := Some d1\<rparr>)"
      using assms by (simp add: reserve_seqs_def Let_def d1_def)
    have r2: "unreserve_seqs ''alice'' [30] (s\<lparr>data := Some d1\<rparr>)
                = (Inr ([], [], []), s\<lparr>data := Some d2\<rparr>)"
      using l1 by (simp add: unreserve_seqs_def Let_def d2_def)
    have r3: "unreserve_seqs ''bob'' [30] (s\<lparr>data := Some d2\<rparr>)
                = (Inr ([], [30], []), s\<lparr>data := Some d2\<rparr>)"
      using l2 by (simp add: unreserve_seqs_def Let_def)
    from r1 r2 r3 l1 l2 show ?thesis
      by (intro exI [of _ d1] exI [of _ d2]) simp
  qed
next
  fix name seqs
  obtain r d' where r: "reserve_loop name seqs ([], [], []) d = (r, d')"
    by (cases "reserve_loop name seqs ([], [], []) d") auto
  obtain D A W where t: "r = (D, A, W)" by (cases r) auto
  from reserve_loop_classes [of name seqs "[]" "[]" "[]" d] r t
  have "D = absent d seqs" and "W = owned_by_other name d seqs" by simp_all
  with assms(1) r t
  show "\<exists>already_owns s'. reserve_seqs name seqs s
          = (Inr (absent d seqs, already_owns, owned_by_other name d seqs), s')"
    by (simp add: reserve_seqs_def)
next
  fix name seqs
  obtain r d' where r: "unreserve_loop name seqs ([], [], []) d = (r, d')"
    by (cases "unreserve_loop name seqs ([], [], []) d") auto
  obtain D A W where t: "r = (D, A, W)" by (cases r) auto
  from unreserve_loop_classes [of name seqs "[]" "[]" "[]" d] r t
  have "D = absent d seqs" and "W = owned_by_other name d seqs" by simp_all
  with assms(1) r t
  show "\<exists>not_reserveds s'. unreserve_seqs name seqs s
          = (Inr (absent d seqs, not_reserveds, owned_by_other name d seqs), s')"
    by (simp add: unreserve_seqs_def)
qed

lemma reservations_store_data: "data reservations_store = Some reservations_data"
  by code_simp

theorem reservation_reconciliation_witness:
  "\<exists>d1 d2.
      reserve_seqs ''alice'' [10, 20, 30] reservations_store
        = (Inr ([], [10], [(20, ''bob'')]), reservations_store\<lparr>data := Some d1\<rparr>)
    \<and> map_option res (map_of d1 30) = Some ''alice''
    \<and> unreserve_seqs ''alice'' [30] (reservations_store\<lparr>data := Some d1\<rparr>)
        = (Inr ([], [], []), reservations_store\<lparr>data := Some d2\<rparr>)
    \<and> map_option res (map_of d2 30) = Some []
    \<and> unreserve_seqs ''bob'' [30] (reservations_store\<lparr>data := Some d2\<rparr>)
        = (Inr ([], [30], []), reservations_store\<lparr>data := Some d2\<rparr>)"
proof -
  have m10: "map_of reservations_data 10 = Some ((record_of 10 1 ''alice'')\<lparr>heap_entry := Some 0\<rparr>)"
    and m20: "map_of reservations_data 20 = Some ((record_of 20 2 ''bob'')\<lparr>heap_entry := Some 1\<rparr>)"
    and m30: "map_of reservations_data 30 = Some ((record_of 30 3 [])\<lparr>heap_entry := Some 2\<rparr>)"
    by (simp_all add: reservations_data_def)
  have r10: "res ((record_of 10 1 ''alice'')\<lparr>heap_entry := Some 0\<rparr>) = ''alice''"
    and r20: "res ((record_of 20 2 ''bob'')\<lparr>heap_entry := Some 1\<rparr>) = ''bob''"
    and r30: "res ((record_of 30 3 [])\<lparr>heap_entry := Some 2\<rparr>) = []"
    by (simp_all add: record_of_def)
  from reservation_reconciliation [OF reservations_store_data m10 r10 m20 r20 m30 r30]
  show ?thesis by blast
qed

text \<open>
  C10: \<^verbatim>\<open>reserve_seqs\<close> and \<^verbatim>\<open>unreserve_seqs\<close> change nothing of the state but
  the dictionary (the heap, the heap entries, the files and the other attributes stay
  as they are); the dictionary keeps its keys; a record whose id is not in the list of
  the call is unchanged, and a record whose id is in the list changes at most in its
  slot \<open>res\<close>. On an object that has not read its file nothing changes at all.
\<close>

theorem reserve_unreserve_frame:
  "(data s = None \<longrightarrow>
      snd (reserve_seqs name seqs s) = s \<and> snd (unreserve_seqs name seqs s) = s)
   \<and> (\<forall>d. data s = Some d \<longrightarrow>
        (\<exists>r d'. reserve_seqs name seqs s = (Inr r, s\<lparr>data := Some d'\<rparr>)
           \<and> res_only d d' \<and> (\<forall>k. k \<notin> set seqs \<longrightarrow> map_of d' k = map_of d k))
      \<and> (\<exists>r d'. unreserve_seqs name seqs s = (Inr r, s\<lparr>data := Some d'\<rparr>)
           \<and> res_only d d' \<and> (\<forall>k. k \<notin> set seqs \<longrightarrow> map_of d' k = map_of d k)))"
proof (intro conjI impI allI)
  fix d assume d: "data s = Some d"
  obtain r d' where r: "reserve_loop name seqs ([], [], []) d = (r, d')"
    by (cases "reserve_loop name seqs ([], [], []) d") auto
  from reserve_loop_res_only [of d name seqs "([], [], [])"] r
  have 1: "res_only d d'" by simp
  from reserve_loop_frame [of _ seqs name "([], [], [])" d] r
  have 2: "\<forall>k. k \<notin> set seqs \<longrightarrow> map_of d' k = map_of d k" by simp
  have "reserve_seqs name seqs s = (Inr r, s\<lparr>data := Some d'\<rparr>)"
    using d r by (simp add: reserve_seqs_def)
  with 1 2
  show "\<exists>r d'. reserve_seqs name seqs s = (Inr r, s\<lparr>data := Some d'\<rparr>)
           \<and> res_only d d' \<and> (\<forall>k. k \<notin> set seqs \<longrightarrow> map_of d' k = map_of d k)"
    by blast
next
  fix d assume d: "data s = Some d"
  obtain r d' where r: "unreserve_loop name seqs ([], [], []) d = (r, d')"
    by (cases "unreserve_loop name seqs ([], [], []) d") auto
  from unreserve_loop_res_only [of d name seqs "([], [], [])"] r
  have 1: "res_only d d'" by simp
  from unreserve_loop_frame [of _ seqs name "([], [], [])" d] r
  have 2: "\<forall>k. k \<notin> set seqs \<longrightarrow> map_of d' k = map_of d k" by simp
  have "unreserve_seqs name seqs s = (Inr r, s\<lparr>data := Some d'\<rparr>)"
    using d r by (simp add: unreserve_seqs_def)
  with 1 2
  show "\<exists>r d'. unreserve_seqs name seqs s = (Inr r, s\<lparr>data := Some d'\<rparr>)
           \<and> res_only d d' \<and> (\<forall>k. k \<notin> set seqs \<longrightarrow> map_of d' k = map_of d k)"
    by blast
qed (simp_all add: reserve_seqs_def unreserve_seqs_def)

theorem reserve_unreserve_frame_witness:
  "(\<exists>r d'. reserve_seqs ''alice'' [30, 40] reservations_store
              = (Inr r, reservations_store\<lparr>data := Some d'\<rparr>)
          \<and> res_only reservations_data d'
          \<and> map_of d' 10 = map_of reservations_data 10
          \<and> map_of d' 20 = map_of reservations_data 20)
   \<and> (\<exists>r d'. unreserve_seqs ''bob'' [20] reservations_store
              = (Inr r, reservations_store\<lparr>data := Some d'\<rparr>)
          \<and> res_only reservations_data d'
          \<and> map_of d' 10 = map_of reservations_data 10
          \<and> map_of d' 30 = map_of reservations_data 30)
   \<and> snd (reserve_seqs ''alice'' [30, 40] unread_store) = unread_store
   \<and> snd (unreserve_seqs ''alice'' [30, 40] unread_store) = unread_store"
proof -
  have n: "data unread_store = None"
    by (simp add: unread_store_def init_def)
  note a = reserve_unreserve_frame [of reservations_store "''alice''" "[30, 40]"]
  note b = reserve_unreserve_frame [of reservations_store "''bob''" "[20]"]
  note c = reserve_unreserve_frame [of unread_store "''alice''" "[30, 40]"]
  from a reservations_store_data
  obtain r d' where f1: "reserve_seqs ''alice'' [30, 40] reservations_store
              = (Inr r, reservations_store\<lparr>data := Some d'\<rparr>)"
      "res_only reservations_data d'"
      "\<forall>k. k \<notin> set [30, 40 :: int] \<longrightarrow> map_of d' k = map_of reservations_data k"
    by blast
  from f1(3) have g1: "map_of d' 10 = map_of reservations_data 10"
      "map_of d' 20 = map_of reservations_data 20" by simp_all
  from b reservations_store_data
  obtain r2 d2 where f2: "unreserve_seqs ''bob'' [20] reservations_store
              = (Inr r2, reservations_store\<lparr>data := Some d2\<rparr>)"
      "res_only reservations_data d2"
      "\<forall>k. k \<notin> set [20 :: int] \<longrightarrow> map_of d2 k = map_of reservations_data k"
    by blast
  from f2(3) have g2: "map_of d2 10 = map_of reservations_data 10"
      "map_of d2 30 = map_of reservations_data 30" by simp_all
  from c n
  have f3: "snd (reserve_seqs ''alice'' [30, 40] unread_store) = unread_store"
    "snd (unreserve_seqs ''alice'' [30, 40] unread_store) = unread_store"
    by blast+
  from f1(1,2) g1 f2(1,2) g2 f3 show ?thesis by blast
qed

subsection \<open>The exceptions of the heap functions\<close>

lemma siftdown_loop_error:
  "siftdown_loop lt h sp p x = (Some e, h') \<Longrightarrow> \<exists>a b. lt a b = Inl e"
proof (induction lt h sp p x rule: siftdown_loop.induct)
  case (1 lt heap startpos pos newitem)
  from "1.prems" show ?case
    by (subst (asm) siftdown_loop.simps)
       (auto simp: Let_def split: if_splits sum.splits bool.splits dest: "1.IH")
qed

lemma siftup_loop_error:
  "siftup_loop lt h n p = (Some e, r) \<Longrightarrow> \<exists>a b. lt a b = Inl e"
proof (induction lt h n p rule: siftup_loop.induct)
  case (1 lt heap endpos pos)
  from "1.prems" "1.IH" show ?case
    by (auto simp: siftup_loop.simps [of lt heap endpos pos] Let_def
          split: if_splits sum.splits)
qed

lemma siftup_error:
  "siftup lt h p = (Some e, h') \<Longrightarrow> e = IndexError \<or> (\<exists>a b. lt a b = Inl e)"
  by (auto simp: siftup_def siftdown_def Let_def
        split: if_splits prod.splits option.splits
        dest: siftup_loop_error siftdown_loop_error)

lemma heapify_loop_error:
  "heapify_loop lt is h = (Some e, h') \<Longrightarrow> e = IndexError \<or> (\<exists>a b. lt a b = Inl e)"
  by (induction "is" arbitrary: h)
     (auto split: prod.splits option.splits dest: siftup_error)

lemma heap_lt_error: "heap_lt es a b = Inl e \<Longrightarrow> e = TypeError"
  by (auto simp: heap_lt_def entry_lt_def split: if_splits option.splits)

lemma heapify_error:
  "heapify (heap_lt es) h = (Some e, h') \<Longrightarrow> e = IndexError \<or> e = TypeError"
  unfolding heapify_def by (auto dest!: heapify_loop_error heap_lt_error)

subsection \<open>Locking\<close>

lemma lock_held: "files s (lockfile s) = Some f \<Longrightarrow> lock s = (Some LockError, s)"
  by (simp add: lock_def)

lemma lock_free:
  "files s (lockfile s) = None \<Longrightarrow> lock s = (None, s\<lparr>files := (files s)(lockfile s \<mapsto> Empty)\<rparr>)"
  by (simp add: lock_def)

lemma lock_read_init_LockError:
  "fst (lock_read_init s) = Some LockError \<longleftrightarrow> files s (lockfile s) \<noteq> None"
proof (cases "files s (lockfile s)")
  case None
  show ?thesis
    using None
    by (auto simp: lock_read_init_def lock_free Let_def
          split: option.splits file_content.splits prod.splits dest: heapify_error)
next
  case (Some f)
  then show ?thesis by (simp add: lock_read_init_def lock_held)
qed

lemma lock_read_init_held:
  "files s (lockfile s) \<noteq> None \<Longrightarrow> lock_read_init s = (Some LockError, s)"
  by (auto simp: lock_read_init_def lock_held)

lemma lock_read_init_LockError_state:
  "lock_read_init s = (Some LockError, s1) \<Longrightarrow> s1 = s"
  using lock_read_init_LockError [of s] lock_read_init_held [of s] by auto

lemma enter_loop_LockError:
  "enter_loop period env is f s = (Some LockError, s')
     \<Longrightarrow> slept s' = slept s + period * int (length is)"
proof (induction "is" arbitrary: f s)
  case Nil
  then show ?case by (auto split: option.splits)
next
  case (Cons i "is")
  obtain r s1 where l: "lock_read_init s = (r, s1)" by (cases "lock_read_init s") auto
  show ?case
  proof (cases "r = Some LockError")
    case True
    with l have s1: "s1 = s" by (simp add: lock_read_init_LockError_state)
    from Cons.prems l True s1
    have "enter_loop period env is (Some LockError) (sleep (env i) period s) = (Some LockError, s')"
      by simp
    from Cons.IH [OF this] show ?thesis
      by (simp add: sleep_def algebra_simps)
  next
    case False
    with Cons.prems l show ?thesis
      by (cases r) (auto split: error.splits)
  qed
qed

text \<open>
  C9: once \<^verbatim>\<open>_lock\<close> has created the lock file, \<^verbatim>\<open>_lock\<close> and
  \<^verbatim>\<open>lock_read_init\<close> of any object with that lock file fail with \<^verbatim>\<open>LockError\<close>
  and change nothing. With \<^verbatim>\<open>block_minutes=0\<close>, \<^verbatim>\<open>__enter__\<close> makes one attempt:
  if the lock file exists it raises \<^verbatim>\<open>LockError\<close> after one sleep of one second,
  and if it does not exist the result is that of \<^verbatim>\<open>lock_read_init\<close>. For every
  \<^verbatim>\<open>block_minutes\<close> \<open>m \<ge> 0\<close>, when \<^verbatim>\<open>__enter__\<close> raises \<^verbatim>\<open>LockError\<close> it has
  slept \<open>60 m + 1\<close> seconds, which is past the deadline of \<open>m\<close> minutes.
\<close>

theorem lock_twice_and_acquire:
  "(lock s = (None, s1) \<longrightarrow> lockfile t = lockfile s \<longrightarrow> files t = files s1 \<longrightarrow>
      lock t = (Some LockError, t) \<and> lock_read_init t = (Some LockError, t))
   \<and> (block_minutes s = Some 0 \<longrightarrow>
        (files s (lockfile s) \<noteq> None \<longrightarrow>
           enter env s = (Some LockError, sleep (env 0) 1 s))
      \<and> (files s (lockfile s) = None \<longrightarrow> enter env s = lock_read_init s))
   \<and> (block_minutes s = Some m \<longrightarrow> 0 \<le> m \<longrightarrow> enter env s = (Some LockError, s') \<longrightarrow>
        slept s' = slept s + (m * 60 + 1))"
proof (intro conjI impI)
  assume a: "lock s = (None, s1)" "lockfile t = lockfile s" "files t = files s1"
  from a(1) have "files s1 (lockfile s) = Some Empty"
    by (auto simp: lock_def split: option.splits)
  with a(2,3) have h: "files t (lockfile t) = Some Empty" by simp
  then show "lock t = (Some LockError, t)" by (rule lock_held)
  from h show "lock_read_init t = (Some LockError, t)" by (simp add: lock_read_init_held)
next
  assume b: "block_minutes s = Some 0" and h: "files s (lockfile s) \<noteq> None"
  show "enter env s = (Some LockError, sleep (env 0) 1 s)"
    using b lock_read_init_held [OF h] by (simp add: enter_def)
next
  assume b: "block_minutes s = Some 0" and h: "files s (lockfile s) = None"
  obtain r s1 where l: "lock_read_init s = (r, s1)" by (cases "lock_read_init s") auto
  from h lock_read_init_LockError [of s] l have "r \<noteq> Some LockError" by auto
  with b l show "enter env s = lock_read_init s"
    by (cases r) (auto simp: enter_def split: error.splits)
next
  assume c: "block_minutes s = Some m" "0 \<le> m" "enter env s = (Some LockError, s')"
  from c(1,3) have "enter_loop 1 env [0 ..< nat (m * 60 + 1)] None s = (Some LockError, s')"
    by (simp add: enter_def Let_def)
  from enter_loop_LockError [OF this] c(2)
  show "slept s' = slept s + (m * 60 + 1)" by simp
qed

theorem lock_twice_and_acquire_witness:
  "lock locked_out_store = (Some LockError, locked_out_store)
   \<and> lock_read_init locked_out_store = (Some LockError, locked_out_store)
   \<and> enter (\<lambda>i fs. fs) (acquire_lock 0 locked_out_store)
       = (Some LockError, sleep (\<lambda>fs. fs) 1 (acquire_lock 0 locked_out_store))
   \<and> enter (\<lambda>i fs. fs) (acquire_lock 0 fresh_store) = lock_read_init (acquire_lock 0 fresh_store)
   \<and> fst (lock_read_init (acquire_lock 0 fresh_store)) = None
   \<and> enter (\<lambda>i fs. fs) (acquire_lock 1 locked_out_store)
       = (Some LockError, snd (enter (\<lambda>i fs. fs) (acquire_lock 1 locked_out_store)))
   \<and> slept (snd (enter (\<lambda>i fs. fs) (acquire_lock 1 locked_out_store))) = 61"
proof -
  have l: "lock fresh_store = (None, snd (lock fresh_store))"
    by (simp add: fresh_store_def init_def lock_def)
  have lf: "lockfile locked_out_store = lockfile fresh_store"
    and fs: "files locked_out_store = files (snd (lock fresh_store))"
    by (simp_all add: locked_out_store_def)
  have h0: "files (acquire_lock 0 locked_out_store) (lockfile (acquire_lock 0 locked_out_store)) \<noteq> None"
    by (simp add: acquire_lock_def locked_out_store_def fresh_store_def init_def lock_def)
  have f0: "files (acquire_lock 0 fresh_store) (lockfile (acquire_lock 0 fresh_store)) = None"
    by (simp add: acquire_lock_def fresh_store_def init_def)
  have b0: "block_minutes (acquire_lock 0 locked_out_store) = Some 0"
    and b0': "block_minutes (acquire_lock 0 fresh_store) = Some 0"
    and b1: "block_minutes (acquire_lock 1 locked_out_store) = Some 1"
    by (simp_all add: acquire_lock_def)
  have ok: "fst (lock_read_init (acquire_lock 0 fresh_store)) = None"
    by code_simp
  have e1: "fst (enter (\<lambda>i fs. fs) (acquire_lock 1 locked_out_store)) = Some LockError"
    by code_simp
  then have e1': "enter (\<lambda>i fs. fs) (acquire_lock 1 locked_out_store)
       = (Some LockError, snd (enter (\<lambda>i fs. fs) (acquire_lock 1 locked_out_store)))"
    by (metis prod.collapse)
  have s0: "slept (acquire_lock 1 locked_out_store) = 0"
    by (simp add: acquire_lock_def locked_out_store_def fresh_store_def init_def)
  note a = lock_twice_and_acquire
    [where s = fresh_store and ?s1.0 = "snd (lock fresh_store)" and t = locked_out_store]
  note b = lock_twice_and_acquire
    [where s = "acquire_lock 0 locked_out_store" and env = "\<lambda>i fs. fs"]
  note c = lock_twice_and_acquire
    [where s = "acquire_lock 0 fresh_store" and env = "\<lambda>i fs. fs"]
  note d = lock_twice_and_acquire
    [where s = "acquire_lock 1 locked_out_store" and env = "\<lambda>i fs. fs" and m = 1
       and s' = "snd (enter (\<lambda>i fs. fs) (acquire_lock 1 locked_out_store))"]
  from a l lf fs have 1: "lock locked_out_store = (Some LockError, locked_out_store)"
    "lock_read_init locked_out_store = (Some LockError, locked_out_store)" by blast+
  from b b0 h0 have 2: "enter (\<lambda>i fs. fs) (acquire_lock 0 locked_out_store)
       = (Some LockError, sleep (\<lambda>fs. fs) 1 (acquire_lock 0 locked_out_store))" by blast
  from c b0' f0 have 3: "enter (\<lambda>i fs. fs) (acquire_lock 0 fresh_store)
       = lock_read_init (acquire_lock 0 fresh_store)" by blast
  from d b1 e1' s0 have 4: "slept (snd (enter (\<lambda>i fs. fs) (acquire_lock 1 locked_out_store))) = 61"
    by simp
  from 1 2 3 ok e1' 4 show ?thesis by blast
qed

subsection \<open>drop\<close>

lemma length_fold_tombstone [simp]: "length (fold tombstone ps es) = length es"
  by (induction ps arbitrary: es) (simp_all add: tombstone_def)

lemma fold_tombstone_other: "p \<notin> set ps \<Longrightarrow> fold tombstone ps es ! p = es ! p"
  by (induction ps arbitrary: es) (auto simp: tombstone_def)

lemma fold_tombstone_None_stays:
  "p < length es \<Longrightarrow> e_seq (es ! p) = None \<Longrightarrow> e_seq (fold tombstone ps es ! p) = None"
proof (induction ps arbitrary: es)
  case Nil
  then show ?case by simp
next
  case (Cons q ps)
  have "e_seq (tombstone q es ! p) = None"
    using Cons.prems by (cases "p = q") (simp_all add: tombstone_def)
  moreover have "p < length (tombstone q es)" using Cons.prems by (simp add: tombstone_def)
  ultimately show ?case using Cons.IH [of "tombstone q es"] by simp
qed

lemma fold_tombstone_in:
  "p \<in> set ps \<Longrightarrow> p < length es \<Longrightarrow> e_seq (fold tombstone ps es ! p) = None"
proof (induction ps arbitrary: es)
  case Nil
  then show ?case by simp
next
  case (Cons q ps)
  show ?case
  proof (cases "p = q")
    case True
    have "e_seq (tombstone q es ! p) = None" "p < length (tombstone q es)"
      using True Cons.prems by (simp_all add: tombstone_def)
    then show ?thesis using fold_tombstone_None_stays [of p "tombstone q es" ps] by simp
  next
    case False
    with Cons.prems have "p \<in> set ps" "p < length (tombstone q es)"
      by (simp_all add: tombstone_def)
    from Cons.IH [OF this] show ?thesis by simp
  qed
qed

lemma map_of_without: "map_of (without ks d) k = (if k \<in> set ks then None else map_of d k)"
  by (induction d) (auto simp: without_def)

lemma without_Nil [simp]: "without [] d = d"
  by (simp add: without_def)

lemma without_Cons: "without (k # ks) d = without ks (AList.delete k d)"
  by (induction d) (auto simp: without_def)

lemma drop_seqs_append:
  "drop_seqs (xs @ ys) s =
     (case drop_seqs xs s of (None, s') \<Rightarrow> drop_seqs ys s' | (Some e, s') \<Rightarrow> (Some e, s'))"
  by (induction xs arbitrary: s)
     (auto split: option.splits sum.splits prod.splits)

lemma drop_seqs_present:
  assumes "distinct ks" and "data s = Some d"
    and "\<forall>k\<in>set ks. \<exists>a p. map_of d k = Some a \<and> heap_entry a = Some p"
  shows "drop_seqs ks s =
           (None, s\<lparr>entries := fold tombstone (map (entry_of d) ks) (entries s),
                    data := Some (without ks d)\<rparr>)"
  using assms
proof (induction ks arbitrary: s d)
  case Nil
  then show ?case by simp
next
  case (Cons k ks)
  from Cons.prems obtain a p where a: "map_of d k = Some a" "heap_entry a = Some p"
    by auto
  let ?s1 = "s\<lparr>entries := tombstone p (entries s), data := Some (AList.delete k d)\<rparr>"
  have step: "drop_seqs (k # ks) s = drop_seqs ks ?s1"
    using Cons.prems(2) a by (simp add: sabotage_heap_entry_def tombstone_def)
  have same: "map_of (AList.delete k d) k' = map_of d k'" if "k' \<in> set ks" for k'
    using that Cons.prems(1) by (auto simp: delete_conv')
  have pre: "\<forall>k'\<in>set ks. \<exists>a p. map_of (AList.delete k d) k' = Some a \<and> heap_entry a = Some p"
    using Cons.prems(3) same by simp
  have addr: "map (entry_of (AList.delete k d)) ks = map (entry_of d) ks"
    using same by (simp add: entry_of_def)
  have p: "entry_of d k = p" using a by (simp add: entry_of_def)
  from Cons.prems(1) have "distinct ks" by simp
  from Cons.IH [OF this _ pre, of ?s1]
  have ih: "drop_seqs ks ?s1 =
      (None, s\<lparr>entries := fold tombstone (map (entry_of d) ks) (tombstone p (entries s)),
                data := Some (without ks (AList.delete k d))\<rparr>)"
    by (simp add: addr)
  show ?case
    unfolding step ih by (simp add: p without_Cons)
qed

lemma dropped_present:
  assumes "data s = Some d"
    and "\<forall>k a. map_of d k = Some a \<longrightarrow> (\<exists>p. heap_entry a = Some p \<and> p < length (entries s))"
    and "distinct ks" and "\<forall>k\<in>set ks. map_of d k \<noteq> None"
  shows "\<exists>s'. drop_seqs ks s = (None, s') \<and> data s' = Some (without ks d) \<and> dropped s d ks s'"
proof -
  let ?s' = "s\<lparr>entries := fold tombstone (map (entry_of d) ks) (entries s),
               data := Some (without ks d)\<rparr>"
  have pre: "\<forall>k\<in>set ks. \<exists>a p. map_of d k = Some a \<and> heap_entry a = Some p"
    using assms(2,4) by fastforce
  have run: "drop_seqs ks s = (None, ?s')"
    by (rule drop_seqs_present [OF assms(3) assms(1) pre])
  have inr: "entry_of d k < length (entries s)" if "k \<in> set ks" for k
    using that assms(2,4) by (fastforce simp: entry_of_def)
  have "dropped s d ks ?s'"
    unfolding dropped_def
    by (auto simp: map_of_without fold_tombstone_other intro!: fold_tombstone_in inr)
  with run show ?thesis by auto
qed

text \<open>
  C5, as amended: \<^verbatim>\<open>drop\<close> works through the ids in order. If they are distinct and
  all keys of the dictionary, it returns normally and each is dropped. Otherwise it
  raises \<^verbatim>\<open>KeyError\<close> at the first id \<open>x\<close> that is not a key or has occurred before
  in the list, and the ids \<open>pre\<close> before \<open>x\<close> stay dropped: the call applies in
  part. (The records of the store each hold the address of their heap entry.)
\<close>

theorem drop_applies_in_order:
  assumes "data s = Some d"
    and "\<forall>k a. map_of d k = Some a \<longrightarrow> (\<exists>p. heap_entry a = Some p \<and> p < length (entries s))"
  shows "(distinct seqs \<and> (\<forall>k\<in>set seqs. map_of d k \<noteq> None) \<longrightarrow>
            (\<exists>s'. drop_seqs seqs s = (None, s') \<and> dropped s d seqs s'))
       \<and> (\<forall>pre x rest.
            seqs = pre @ x # rest \<and> distinct pre \<and> (\<forall>k\<in>set pre. map_of d k \<noteq> None)
            \<and> (map_of d x = None \<or> x \<in> set pre) \<longrightarrow>
            (\<exists>s'. drop_seqs seqs s = (Some KeyError, s') \<and> dropped s d pre s'))"
proof (intro conjI impI allI)
  assume "distinct seqs \<and> (\<forall>k\<in>set seqs. map_of d k \<noteq> None)"
  with dropped_present [OF assms, of seqs]
  show "\<exists>s'. drop_seqs seqs s = (None, s') \<and> dropped s d seqs s'" by blast
next
  fix pre x rest
  assume h: "seqs = pre @ x # rest \<and> distinct pre \<and> (\<forall>k\<in>set pre. map_of d k \<noteq> None)
            \<and> (map_of d x = None \<or> x \<in> set pre)"
  with dropped_present [OF assms, of pre]
  obtain s' where s': "drop_seqs pre s = (None, s')" "data s' = Some (without pre d)"
      "dropped s d pre s'" by blast
  from h have "map_of (without pre d) x = None" by (auto simp: map_of_without)
  with s'(2) have "drop_seqs (x # rest) s' = (Some KeyError, s')" by simp
  with h s'(1) have "drop_seqs seqs s = (Some KeyError, s')"
    by (simp add: drop_seqs_append)
  with s'(3) show "\<exists>s'. drop_seqs seqs s = (Some KeyError, s') \<and> dropped s d pre s'"
    by blast
qed

lemma reservations_store_wired:
  "\<forall>k a. map_of reservations_data k = Some a \<longrightarrow>
      (\<exists>p. heap_entry a = Some p \<and> p < length (entries reservations_store))"
proof -
  have "length (entries reservations_store) = 3" by code_simp
  then show ?thesis by (auto simp: reservations_data_def split: if_splits)
qed

theorem drop_applies_in_order_witness:
  "(\<exists>s'. drop_seqs [10, 30] reservations_store = (None, s')
         \<and> dropped reservations_store reservations_data [10, 30] s')
   \<and> (\<exists>s'. drop_seqs [10, 99, 20] reservations_store = (Some KeyError, s')
         \<and> dropped reservations_store reservations_data [10] s')
   \<and> (\<exists>s'. drop_seqs [20, 20] reservations_store = (Some KeyError, s')
         \<and> dropped reservations_store reservations_data [20] s')"
proof -
  note t = drop_applies_in_order [OF reservations_store_data reservations_store_wired]
  have m: "map_of reservations_data 10 \<noteq> None" "map_of reservations_data 20 \<noteq> None"
    "map_of reservations_data 30 \<noteq> None" "map_of reservations_data 99 = None"
    by (simp_all add: reservations_data_def)
  from t [of "[10, 30]"] m
  have 1: "\<exists>s'. drop_seqs [10, 30] reservations_store = (None, s')
         \<and> dropped reservations_store reservations_data [10, 30] s'" by simp
  from t [of "[10, 99, 20]", THEN conjunct2, rule_format, of "[10]" 99 "[20]"] m
  have 2: "\<exists>s'. drop_seqs [10, 99, 20] reservations_store = (Some KeyError, s')
         \<and> dropped reservations_store reservations_data [10] s'" by simp
  from t [of "[20, 20]", THEN conjunct2, rule_format, of "[20]" 20 "[]"] m
  have 3: "\<exists>s'. drop_seqs [20, 20] reservations_store = (Some KeyError, s')
         \<and> dropped reservations_store reservations_data [20] s'" by simp
  from 1 2 3 show ?thesis by blast
qed

text \<open>
  The claim as stated fails: 99 is not in the store, \<^verbatim>\<open>drop([10, 99])\<close> raises
  \<^verbatim>\<open>KeyError\<close>, and 10 is gone from the dictionary and its heap entry tombstoned.
\<close>

theorem drop_not_atomic:
  "map_of reservations_data 99 = None
   \<and> fst (drop_seqs [10, 99] reservations_store) = Some KeyError
   \<and> data (snd (drop_seqs [10, 99] reservations_store)) \<noteq> data reservations_store
   \<and> map_option (map fst) (data (snd (drop_seqs [10, 99] reservations_store))) = Some [20, 30]
   \<and> e_seq (entries reservations_store ! 0) = Some 10
   \<and> e_seq (entries (snd (drop_seqs [10, 99] reservations_store)) ! 0) = None"
  by code_simp

subsection \<open>Operations without the lock\<close>

lemma siftdown_error:
  "siftdown lt h sp p = (Some e, h') \<Longrightarrow> e = IndexError \<or> (\<exists>a b. lt a b = Inl e)"
  by (auto simp: siftdown_def split: if_splits dest: siftdown_loop_error)

lemma heappush_error:
  "heappush (heap_lt es) h p = (Some e, h') \<Longrightarrow> e = IndexError \<or> e = TypeError"
  unfolding heappush_def by (auto dest!: siftdown_error heap_lt_error)

lemma push_new_info_no_LockError: "fst (push_new_info a s) \<noteq> Some LockError"
  by (auto simp: push_new_info_def make_heap_entry_def
        split: option.splits prod.splits dest: heappush_error)

lemma drop_seqs_no_LockError: "fst (drop_seqs ks s) \<noteq> Some LockError"
  by (induction ks arbitrary: s)
     (auto simp: sabotage_heap_entry_def split: option.splits sum.splits)

lemma reserve_seqs_no_LockError:
  "fst (reserve_seqs name ks s) \<noteq> Inl LockError"
  "fst (unreserve_seqs name ks s) \<noteq> Inl LockError"
  by (auto simp: reserve_seqs_def unreserve_seqs_def split: option.splits prod.splits)

lemma unlock_write_no_LockError: "fst (unlock_write s) \<noteq> Some LockError"
  by (auto simp: unlock_write_def unlock_def Let_def split: option.splits)

text \<open>
  C6: the claim says that a store that does not hold the lock rejects every mutating
  operation with \<^verbatim>\<open>LockError\<close>. The methods never test the lock. On the store that
  has released its lock, \<^verbatim>\<open>push_new_info\<close>, \<^verbatim>\<open>drop\<close>, \<^verbatim>\<open>reserve_seqs\<close> and
  \<^verbatim>\<open>unreserve_seqs\<close> return normally and change the dictionary, and \<^verbatim>\<open>unlock_write\<close>
  rewrites the file before \<^verbatim>\<open>FileNotFoundError\<close> from removing the lock file; on
  the object that never read its file they raise \<^verbatim>\<open>TypeError\<close> or
  \<^verbatim>\<open>AttributeError\<close>.
\<close>

theorem mutation_without_lock:
  "files released_store (lockfile released_store) = None
   \<and> fst (push_new_info (record_of 40 4 []) released_store) = None
   \<and> map_option (map fst) (data (snd (push_new_info (record_of 40 4 []) released_store)))
       = Some [10, 20, 30, 40]
   \<and> fst (drop_seqs [10] released_store) = None
   \<and> map_option (map fst) (data (snd (drop_seqs [10] released_store))) = Some [20, 30]
   \<and> fst (reserve_seqs ''carol'' [30] released_store) = Inr ([], [], [])
   \<and> map_option (map (res \<circ> snd)) (data (snd (reserve_seqs ''carol'' [30] released_store)))
       = Some [''alice'', ''bob'', ''carol'']
   \<and> fst (unreserve_seqs ''bob'' [20] released_store) = Inr ([], [], [])
   \<and> map_option (map (res \<circ> snd)) (data (snd (unreserve_seqs ''bob'' [20] released_store)))
       = Some [''alice'', [], []]
   \<and> fst (unlock_write released_store) = Some FileNotFoundError
   \<and> fst (push_new_info (record_of 40 4 []) fresh_store) = Some TypeError
   \<and> fst (drop_seqs [276] fresh_store) = Some AttributeError
   \<and> fst (reserve_seqs ''carol'' [276] fresh_store) = Inl AttributeError
   \<and> fst (unreserve_seqs ''carol'' [276] fresh_store) = Inl AttributeError
   \<and> fst (unlock_write fresh_store) = Some TypeError"
  by code_simp

subsection \<open>pop_n_todo\<close>

text \<open>
  C7: the claim says that \<^verbatim>\<open>pop_n_todo\<close> yields only ids that are in the store and
  never a dropped id. After \<^verbatim>\<open>push_new_info\<close> has replaced the record of 10, the
  heap holds the entry of the old record and that of the new one; \<^verbatim>\<open>drop([10])\<close>
  tombstones the new one only, and \<^verbatim>\<open>pop_n_todo(1)\<close> yields 10, which is not in the
  store.
\<close>

theorem pop_n_todo_yields_dropped:
  "fst (push_new_info (record_of 10 0 ''alice'') reservations_store) = None
   \<and> fst (drop_seqs [10] overwritten_store) = None
   \<and> map_option (map fst) (data overwritten_dropped_store) = Some [20, 30]
   \<and> fst (pop_n_todo 1 overwritten_dropped_store) = [10]
   \<and> fst (snd (pop_n_todo 1 overwritten_dropped_store)) = None"
  by code_simp

subsection \<open>Writing and reading back\<close>

text \<open>
  C2: the claim says that writing a store of complete records and reading the file
  again gives the same dictionary. With a record whose reservation is \<^verbatim>\<open>x],y\<close> the
  records are complete and \<^verbatim>\<open>unlock_write\<close> returns normally, but line 405 has put
  a line feed into that string: the file is not a JSON document, and
  \<^verbatim>\<open>lock_read_init\<close> of a new object for it raises and reads no dictionary.
\<close>

theorem written_file_unreadable:
  "map_option (list_all (is_valid \<circ> snd)) (data bracket_store) = Some True
   \<and> map_option (map (res \<circ> snd)) (data bracket_store) = Some [''alice'', ''bob'', ''x],y'']
   \<and> files bracket_store (lockfile bracket_store) = Some Empty
   \<and> fst (unlock_write bracket_store) = None
   \<and> files bracket_written ''AllSeq.json'' = Some Malformed
   \<and> files bracket_written (lockfile bracket_written) = None
   \<and> fst (lock_read_init bracket_reader) = Some JSONDecodeError
   \<and> data (snd (lock_read_init bracket_reader)) = None"
  by code_simp

subsection \<open>The heap functions permute the list\<close>

lemma mset_update_swap:
  assumes "i < length h" and "j < length h" and "i \<noteq> j"
  shows "mset (h[i := h ! j, j := x]) = mset (h[i := x])"
proof -
  let ?g = "h[i := x]"
  have "?g[j := ?g ! i, i := ?g ! j] = h[i := x, j := x, i := h ! j]"
    using assms by simp
  also have "\<dots> = h[i := x, i := h ! j, j := x]"
    using assms(3) by (simp add: list_update_swap [of i j])
  also have "\<dots> = h[i := h ! j, j := x]" by simp
  finally have "h[i := h ! j, j := x] = ?g[j := ?g ! i, i := ?g ! j]" by simp
  moreover have "mset (?g[j := ?g ! i, i := ?g ! j]) = mset ?g"
    using assms by (intro mset_swap) simp_all
  ultimately show ?thesis by simp
qed

lemma siftdown_loop_mset:
  "pos < length h \<Longrightarrow> siftdown_loop lt h sp pos x = (None, h')
     \<Longrightarrow> mset h' = mset (h[pos := x])"
proof (induction lt h sp pos x rule: siftdown_loop.induct)
  case (1 lt heap startpos pos newitem)
  show ?case
  proof (cases "pos > startpos")
    case False
    with "1.prems" show ?thesis by (simp add: siftdown_loop.simps [of lt heap startpos pos])
  next
    case True
    let ?pp = "(pos - 1) div 2"
    from True have pp: "?pp < pos" by simp
    show ?thesis
    proof (cases "lt newitem (heap ! ?pp)")
      case (Inl e)
      with True "1.prems" show ?thesis
        by (simp add: siftdown_loop.simps [of lt heap startpos pos] Let_def)
    next
      case (Inr b)
      show ?thesis
      proof (cases b)
        case False
        with Inr True "1.prems" show ?thesis
          by (simp add: siftdown_loop.simps [of lt heap startpos pos] Let_def)
      next
        case b: True
        from Inr b True "1.prems"
        have run: "siftdown_loop lt (heap[pos := heap ! ?pp]) startpos ?pp newitem = (None, h')"
          by (simp add: siftdown_loop.simps [of lt heap startpos pos] Let_def)
        have "mset h' = mset (heap[pos := heap ! ?pp, ?pp := newitem])"
          using "1.IH" [OF True refl refl _ _ _ run] Inr b pp "1.prems"(1) by simp
        also have "\<dots> = mset (heap[pos := newitem])"
          using pp "1.prems"(1) by (intro mset_update_swap) simp_all
        finally show ?thesis .
      qed
    qed
  qed
qed

lemma siftdown_mset: "siftdown lt h sp pos = (None, h') \<Longrightarrow> mset h' = mset h"
  by (auto simp: siftdown_def split: if_splits dest: siftdown_loop_mset)

lemma siftup_loop_hole:
  "pos < length h \<Longrightarrow> siftup_loop lt h (length h) pos = (None, h', pos')
     \<Longrightarrow> pos' < length h \<and> length h' = length h
         \<and> (\<forall>x. mset (h'[pos' := x]) = mset (h[pos := x]))"
proof (induction lt h "length h" pos arbitrary: h' pos' rule: siftup_loop.induct)
  case (1 lt heap pos)
  let ?c = "2 * pos + 1"
  show ?case
  proof (cases "?c < length heap")
    case False
    with "1.prems" show ?thesis
      by (simp add: siftup_loop.simps [of lt heap "length heap" pos] Let_def)
  next
    case c: True
    have step: "pos' < length heap \<and> length h' = length heap
         \<and> (\<forall>x. mset (h'[pos' := x]) = mset (heap[pos := x]))"
      if run: "siftup_loop lt (heap[pos := heap ! k]) (length heap) k = (None, h', pos')"
        and k: "k < length heap" "k \<noteq> pos"
        and ih: "\<And>h' pos'. k < length (heap[pos := heap ! k]) \<Longrightarrow>
           siftup_loop lt (heap[pos := heap ! k]) (length (heap[pos := heap ! k])) k = (None, h', pos')
           \<Longrightarrow> pos' < length (heap[pos := heap ! k]) \<and> length h' = length (heap[pos := heap ! k])
             \<and> (\<forall>x. mset (h'[pos' := x]) = mset (heap[pos := heap ! k, k := x]))"
      for k
    proof -
      from ih [of h' pos'] run k
      have r: "pos' < length heap" "length h' = length heap"
        "\<forall>x. mset (h'[pos' := x]) = mset (heap[pos := heap ! k, k := x])" by simp_all
      have "mset (heap[pos := heap ! k, k := x]) = mset (heap[pos := x])" for x
        using k "1.prems"(1) by (intro mset_update_swap) simp_all
      with r show ?thesis by simp
    qed
    show ?thesis
    proof (cases "?c + 1 < length heap")
      case False
      with c "1.prems" have run:
        "siftup_loop lt (heap[pos := heap ! ?c]) (length heap) ?c = (None, h', pos')"
        by (simp add: siftup_loop.simps [of lt heap "length heap" pos] Let_def)
      show ?thesis
        using "1.hyps"(2) [OF refl c refl False] c
        by (intro step [OF run]) simp_all
    next
      case r: True
      show ?thesis
      proof (cases "lt (heap ! ?c) (heap ! (?c + 1))")
        case (Inl e)
        with c r "1.prems" show ?thesis
          by (simp add: siftup_loop.simps [of lt heap "length heap" pos] Let_def)
      next
        case (Inr b)
        show ?thesis
        proof (cases b)
          case True
          with Inr c r "1.prems" have run:
            "siftup_loop lt (heap[pos := heap ! ?c]) (length heap) ?c = (None, h', pos')"
            by (simp add: siftup_loop.simps [of lt heap "length heap" pos] Let_def)
          show ?thesis
            using "1.hyps"(1) [OF refl c refl r Inr refl] True c
            by (intro step [OF run]) simp_all
        next
          case False
          with Inr c r "1.prems" have run:
            "siftup_loop lt (heap[pos := heap ! (?c + 1)]) (length heap) (?c + 1) = (None, h', pos')"
            by (simp add: siftup_loop.simps [of lt heap "length heap" pos] Let_def)
          show ?thesis
            using "1.hyps"(1) [OF refl c refl r Inr refl] False r
            by (intro step [OF run]) simp_all
        qed
      qed
    qed
  qed
qed

lemma siftup_mset:
  assumes "pos < length h" and "siftup lt h pos = (None, h')"
  shows "mset h' = mset h"
proof -
  obtain r h1 p1 where l: "siftup_loop lt h (length h) pos = (r, h1, p1)"
    by (cases "siftup_loop lt h (length h) pos") auto
  with assms have r: "r = None"
    by (cases r) (simp_all add: siftup_def)
  from siftup_loop_hole [OF assms(1) l [unfolded r]]
  have hole: "p1 < length h" "length h1 = length h"
    "mset (h1[p1 := h ! pos]) = mset (h[pos := h ! pos])" by simp_all
  from assms l r have "siftdown lt (h1[p1 := h ! pos]) pos p1 = (None, h')"
    by (simp add: siftup_def)
  from siftdown_mset [OF this] hole(3) show ?thesis by simp
qed

lemma siftup_error_in_range:
  assumes "pos < length h" and "siftup lt h pos = (Some e, h')"
  shows "\<exists>a b. lt a b = Inl e"
proof -
  obtain r h1 p1 where l: "siftup_loop lt h (length h) pos = (r, h1, p1)"
    by (cases "siftup_loop lt h (length h) pos") auto
  show ?thesis
  proof (cases r)
    case (Some e')
    with assms l have "e' = e" by (simp add: siftup_def)
    with Some l show ?thesis by (auto dest: siftup_loop_error)
  next
    case None
    from siftup_loop_hole [OF assms(1) l [unfolded None]]
    have "p1 < length (h1[p1 := h ! pos])" by simp
    moreover from assms l None
    have "siftdown lt (h1[p1 := h ! pos]) pos p1 = (Some e, h')" by (simp add: siftup_def)
    ultimately show ?thesis
      by (auto simp: siftdown_def dest: siftdown_loop_error)
  qed
qed

lemma heappush_mset: "heappush lt h p = (None, h') \<Longrightarrow> mset h' = add_mset p (mset h)"
  unfolding heappush_def by (drule siftdown_mset) simp

lemma heappop_mset:
  assumes "heappop lt h = (Inr p, h')"
  shows "mset h = add_mset p (mset h')"
proof -
  from assms have ne: "h \<noteq> []" by (auto simp: heappop_def)
  then have h: "h = butlast h @ [last h]" by simp
  show ?thesis
  proof (cases "butlast h = []")
    case True
    with h have hl: "h = [last h]" by simp
    from assms ne True have "p = last h" "h' = []"
      by (simp_all add: heappop_def Let_def)
    with hl show ?thesis by (metis mset.simps(1) mset.simps(2))
  next
    case False
    let ?h1 = "butlast h"
    obtain r h2 where s: "siftup lt (?h1[0 := last h]) 0 = (r, h2)"
      by (cases "siftup lt (?h1[0 := last h]) 0") auto
    from assms ne False s have r: "r = None" and p: "p = ?h1 ! 0" and h2: "h2 = h'"
      by (cases r; simp add: heappop_def Let_def)+
    from False have len1: "0 < length ?h1" by (metis length_greater_0_conv)
    then have len: "0 < length (?h1[0 := last h])" by (simp only: length_list_update)
    from siftup_mset [OF len s [unfolded r]] h2
    have "mset h' = mset (?h1[0 := last h])" by simp
    also have "\<dots> = add_mset (last h) (mset ?h1 - {#?h1 ! 0#})"
      by (rule mset_update [OF len1])
    finally have "add_mset p (mset h') = add_mset (last h) (add_mset (?h1 ! 0) (mset ?h1 - {#?h1 ! 0#}))"
      using p by simp
    also have "add_mset (?h1 ! 0) (mset ?h1 - {#?h1 ! 0#}) = mset ?h1"
      by (rule insert_DiffM) (use len1 in \<open>simp only: nth_mem_mset\<close>)
    finally have "add_mset p (mset h') = add_mset (last h) (mset ?h1)" .
    also have "\<dots> = mset h" by (subst (2) h) simp
    finally show ?thesis by simp
  qed
qed

lemma heappop_error:
  assumes "heappop (heap_lt es) h = (Inl e, h')"
  shows "e = TypeError \<or> (e = IndexError \<and> h = [] \<and> h' = [])"
proof (cases "h = []")
  case True
  with assms show ?thesis by (simp add: heappop_def)
next
  case False
  with assms have ne: "butlast h \<noteq> []"
    by (auto simp: heappop_def Let_def split: if_splits)
  from assms False ne obtain h2 where
    "siftup (heap_lt es) ((butlast h)[0 := last h]) 0 = (Some e, h2)"
    by (auto simp: heappop_def Let_def split: prod.splits option.splits)
  moreover from ne have "0 < length (butlast h)" by (metis length_greater_0_conv)
  then have "0 < length ((butlast h)[0 := last h])" by (simp only: length_list_update)
  ultimately have "\<exists>a b. heap_lt es a b = Inl e" by (rule siftup_error_in_range [rotated])
  then show ?thesis by (auto dest: heap_lt_error)
qed

lemma heapify_loop_mset:
  "\<forall>i\<in>set is. i < length x \<Longrightarrow> heapify_loop lt is x = (None, x') \<Longrightarrow> mset x' = mset x"
proof (induction "is" arbitrary: x)
  case Nil
  then show ?case by simp
next
  case (Cons i "is")
  obtain r x1 where s: "siftup lt x i = (r, x1)" by (cases "siftup lt x i") auto
  with Cons.prems(2) have r: "r = None" and l: "heapify_loop lt is x1 = (None, x')"
    by (cases r; simp)+
  from Cons.prems(1) have i: "i < length x" by simp
  from siftup_mset [OF i s [unfolded r]] have m: "mset x1 = mset x" .
  then have "length x1 = length x" by (rule mset_eq_length)
  with Cons.prems(1) have "\<forall>i\<in>set is. i < length x1" by simp
  from Cons.IH [OF this l] m show ?case by simp
qed

lemma heapify_mset: "heapify lt x = (None, x') \<Longrightarrow> mset x' = mset x"
  unfolding heapify_def by (rule heapify_loop_mset) auto

end
